theory Spec2Isabelle
  imports Main "HOL-Library.Countable"
begin

section \<open>Token store (tokenStore.js)\<close>

text \<open>
  The table \<open>tokens\<close>: one row per \<open>user_id\<close> (the primary key). The columns declared
  \<open>NOT NULL\<close> carry plain values, the nullable ones an option (\<open>None\<close> is SQL NULL).
  Times are epoch milliseconds. The table is the list of its rows in insertion order.
\<close>

record token_row =
  user_id :: string
  access_token :: string
  refresh_token :: "string option"
  expiry :: int
  scopes :: "string option"
  created_at :: int
  updated_at :: int

type_synonym tokens = "token_row list"

text \<open>
  The second argument of \<open>set\<close>, as the caller builds it. \<open>None\<close> is null for the two
  nullable fields (\<open>refresh_token\<close> defaults to null), and for \<open>access_token\<close> and
  \<open>expiry\<close> any value the statement refuses: null, undefined, or NaN for the expiry.
\<close>

record token_fields =
  new_access_token :: "string option"
  new_refresh_token :: "string option"
  new_expiry :: "int option"
  new_scopes :: "string option"

datatype store_error = NotNullConstraint

text \<open>
  \<open>upsertStmt\<close>: INSERT ... ON CONFLICT(user_id) DO UPDATE SET access_token,
  refresh_token, expiry, scopes, updated_at. A value refused for a \<open>NOT NULL\<close> column
  makes the statement throw and leaves the table as it was.
\<close>

definition upsertStmt :: "tokens \<Rightarrow> string \<Rightarrow> token_fields \<Rightarrow> int \<Rightarrow> store_error + tokens" where
  "upsertStmt t uid f ts =
     (case new_access_token f of
        None \<Rightarrow> Inl NotNullConstraint
      | Some a \<Rightarrow>
         (case new_expiry f of
            None \<Rightarrow> Inl NotNullConstraint
          | Some e \<Rightarrow>
              if list_ex (\<lambda>r. user_id r = uid) t
              then Inr (map (\<lambda>r. if user_id r = uid
                                  then r\<lparr>access_token := a, refresh_token := new_refresh_token f,
                                          expiry := e, scopes := new_scopes f, updated_at := ts\<rparr>
                                  else r) t)
              else Inr (t @ [\<lparr>user_id = uid, access_token = a,
                               refresh_token = new_refresh_token f, expiry = e,
                               scopes = new_scopes f, created_at = ts, updated_at = ts\<rparr>])))"

text \<open>\<open>set(user_id, fields)\<close>; \<open>ts\<close> is the value of \<open>Date.now()\<close> it reads.\<close>

definition tokenStore_set :: "tokens \<Rightarrow> string \<Rightarrow> token_fields \<Rightarrow> int \<Rightarrow> store_error + tokens" where
  "tokenStore_set t uid f ts = upsertStmt t uid f ts"

text \<open>\<open>get(user_id)\<close>: the row, or null.\<close>

definition tokenStore_get :: "tokens \<Rightarrow> string \<Rightarrow> token_row option" where
  "tokenStore_get t uid = find (\<lambda>r. user_id r = uid) t"

definition tokenStore_delete :: "tokens \<Rightarrow> string \<Rightarrow> tokens" where
  "tokenStore_delete t uid = filter (\<lambda>r. user_id r \<noteq> uid) t"

text \<open>
  \<open>deleteExpired()\<close>: DELETE FROM tokens WHERE expiry <= ?, bound to the clock value
  \<open>now\<close>; returns the number of rows changed and leaves the remaining table.
\<close>

definition tokenStore_deleteExpired :: "int \<Rightarrow> tokens \<Rightarrow> nat \<times> tokens" where
  "tokenStore_deleteExpired now t =
     (length (filter (\<lambda>r. expiry r \<le> now) t), filter (\<lambda>r. \<not> expiry r \<le> now) t)"

definition tokenStore_count :: "tokens \<Rightarrow> nat" where
  "tokenStore_count t = length t"

text \<open>The primary key: no two rows share a \<open>user_id\<close>.\<close>

definition primary_key :: "tokens \<Rightarrow> bool" where
  "primary_key t = distinct (map user_id t)"

section \<open>Token helper (index.js)\<close>

definition skewMs :: int where
  "skewMs = 60 * 1000"

text \<open>\<open>getValidToken(user_id)\<close> at clock value \<open>now\<close>; null is \<open>None\<close>.\<close>

definition getValidToken :: "tokens \<Rightarrow> int \<Rightarrow> string \<Rightarrow> string option" where
  "getValidToken t now uid =
     (case tokenStore_get t uid of
        None \<Rightarrow> None
      | Some rec \<Rightarrow> if expiry rec - skewMs > now then Some (access_token rec) else None)"

section \<open>JavaScript strings\<close>

text \<open>
  Strings are ASCII here: one \<open>char\<close> per UTF-16 code unit below 128. Query and body
  parameters that may be missing are options; \<open>None\<close> is \<open>undefined\<close>.
\<close>

text \<open>Truthiness of a value that is a string or undefined: a non-empty string.\<close>

definition js_truthy :: "string option \<Rightarrow> bool" where
  "js_truthy v = (case v of None \<Rightarrow> False | Some s \<Rightarrow> s \<noteq> [])"

text \<open>\<open>v || ""\<close> for such a value.\<close>

definition or_empty :: "string option \<Rightarrow> string" where
  "or_empty v = (case v of None \<Rightarrow> [] | Some s \<Rightarrow> s)"

definition lower_char :: "char \<Rightarrow> char" where
  "lower_char c =
     (case map_of (zip ''ABCDEFGHIJKLMNOPQRSTUVWXYZ'' ''abcdefghijklmnopqrstuvwxyz'') c of
        None \<Rightarrow> c
      | Some d \<Rightarrow> d)"

definition toLowerCase :: "string \<Rightarrow> string" where
  "toLowerCase s = map lower_char s"

text \<open>The white space and line terminators of ASCII: TAB, LF, VT, FF, CR, SP.\<close>

definition is_space :: "char \<Rightarrow> bool" where
  "is_space c = (c \<in> set [CHR 0x09, CHR 0x0A, CHR 0x0B, CHR 0x0C, CHR 0x0D, CHR 0x20])"

definition trim :: "string \<Rightarrow> string" where
  "trim s = rev (dropWhile is_space (rev (dropWhile is_space s)))"

definition startsWith :: "string \<Rightarrow> string \<Rightarrow> bool" where
  "startsWith s p = (take (length p) s = p)"

text \<open>
  \<open>encodeURIComponent\<close>: letters, digits and \<open>- _ . ! ~ * ' ( )\<close> stay, every other
  character becomes \<open>%\<close> and the two upper-case hexadecimal digits of its byte.
\<close>

definition unreserved :: "char \<Rightarrow> bool" where
  "unreserved c =
     (c \<in> set (''ABCDEFGHIJKLMNOPQRSTUVWXYZabcdefghijklmnopqrstuvwxyz0123456789-_.!~*()''
               @ [CHR 0x27]))"

definition hex_digit :: "nat \<Rightarrow> char" where
  "hex_digit n = ''0123456789ABCDEF'' ! (n mod 16)"

definition encodeURIComponent :: "string \<Rightarrow> string" where
  "encodeURIComponent s =
     concat (map (\<lambda>c. if unreserved c then [c]
                       else [CHR ''%'', hex_digit (of_char c div 16), hex_digit (of_char c)]) s)"

section \<open>Authorization callback (auth.js)\<close>

text \<open>
  A parameter of \<open>req.query\<close>: a string, or (for a repeated or bracketed parameter) the
  array or object the query parser makes of it, kept with its conversion to a string.
  A parameter that is missing is \<open>None\<close>.
\<close>

datatype qparam = QString string | QOther string

record callback_query =
  q_code :: "qparam option"
  q_state :: "qparam option"
  q_error :: "qparam option"
  q_error_description :: "qparam option"
  q_format :: "qparam option"

text \<open>Truthiness of a parameter: a non-empty string, or any array or object.\<close>

definition q_truthy :: "qparam option \<Rightarrow> bool" where
  "q_truthy v =
     (case v of None \<Rightarrow> False | Some (QString s) \<Rightarrow> s \<noteq> [] | Some (QOther s) \<Rightarrow> True)"

text \<open>
  The fields the handler reads from the body of the token endpoint's response.
  \<open>expires_in\<close> is a whole number of seconds; the sums and products of the handler then
  are whole numbers, on which (below \<open>2^53\<close>) the arithmetic of doubles is exact.
\<close>

record token_response =
  tr_access_token :: "string option"
  tr_refresh_token :: "string option"
  tr_expires_in :: "int option"

text \<open>
  What the POST to the token endpoint does when it is made: it returns a response, or it
  throws an error whose payload (\<open>err.response?.data || err.message\<close>) is kept.
\<close>

datatype exchange = TokenResp token_response | PostFailed string

text \<open>
  What the handler does to the outside, in order: the POST, and the call of \<open>set\<close> with
  the value of \<open>user_id\<close> and the fields.
\<close>

datatype effect = PostToken | StoreSet qparam token_fields

text \<open>
  What the catch block reports: the payload of a failed POST, the error of the
  statement, the \<open>TypeError\<close> of binding a \<open>user_id\<close> that is an array or object, or the
  \<open>TypeError\<close> of calling \<open>toLowerCase\<close> on a \<open>format\<close> that is an array or object.
\<close>

datatype error_payload = Provider string | Store store_error | BindRefused | NotAFunction

text \<open>
  The replies: the two plain-text 400s, the 400 of the catch block, and the two forms of
  success (\<open>format=json\<close>, or the page with its minutes, \<open>user_id\<close> and \<open>expires_in\<close>).
\<close>

datatype callback_reply =
    Send400 string
  | Json400 error_payload
  | LoggedInJson string "int option"
  | SignedInHtml "int option" string "int option"

text \<open>\<open>`${v}`\<close> for a parameter.\<close>

definition template :: "qparam option \<Rightarrow> string" where
  "template v =
     (case v of None \<Rightarrow> ''undefined'' | Some (QString s) \<Rightarrow> s | Some (QOther s) \<Rightarrow> s)"

text \<open>
  \<open>router.get("/auth/callback")\<close>. \<open>SCOPES\<close> is the configured scope string, \<open>now\<close> the
  clock value read for the expiry, \<open>ts\<close> the one \<open>set\<close> reads, \<open>post\<close> the outcome of
  the POST if it is made. The result is the reply, the table afterwards and the
  effects. The statement of \<open>set\<close> refuses to bind a \<open>user_id\<close> that is an array or
  object and throws before it touches the table; \<open>(format || "").toLowerCase()\<close> throws
  on a \<open>format\<close> that is an array or object, after \<open>set\<close> has returned.
\<close>

definition auth_callback ::
  "string \<Rightarrow> int \<Rightarrow> int \<Rightarrow> exchange \<Rightarrow> callback_query \<Rightarrow> tokens
     \<Rightarrow> callback_reply \<times> tokens \<times> effect list" where
  "auth_callback SCOPES now ts post q t =
     (if q_truthy (q_error q)
      then (Send400 (''OAuth error: '' @ template (q_error q) @ '' - ''
                       @ template (q_error_description q)), t, [])
      else
        (case q_state q of
           None \<Rightarrow> (Send400 ''Missing authorization code or state (user_id).'', t, [])
         | Some state \<Rightarrow>
             if \<not> q_truthy (q_code q) \<or> \<not> q_truthy (Some state)
             then (Send400 ''Missing authorization code or state (user_id).'', t, [])
             else
               (case post of
                  PostFailed payload \<Rightarrow> (Json400 (Provider payload), t, [PostToken])
                | TokenResp tr \<Rightarrow>
                    (let f = \<lparr>new_access_token = tr_access_token tr,
                              new_refresh_token =
                                (if js_truthy (tr_refresh_token tr) then tr_refresh_token tr
                                 else None),
                              new_expiry = map_option (\<lambda>e. now + e * 1000) (tr_expires_in tr),
                              new_scopes = Some SCOPES\<rparr>
                     in case state of
                          QOther v \<Rightarrow> (Json400 BindRefused, t, [PostToken, StoreSet state f])
                        | QString uid \<Rightarrow>
                            (case tokenStore_set t uid f ts of
                               Inl err \<Rightarrow> (Json400 (Store err), t, [PostToken, StoreSet state f])
                             | Inr t' \<Rightarrow>
                                 (case q_format q of
                                    Some (QOther v) \<Rightarrow>
                                      (Json400 NotAFunction, t', [PostToken, StoreSet state f])
                                  | Some (QString fmt) \<Rightarrow>
                                      (if toLowerCase fmt = ''json''
                                       then LoggedInJson uid (tr_expires_in tr)
                                       else SignedInHtml
                                              (map_option (\<lambda>e. max 1 (e div 60)) (tr_expires_in tr))
                                              uid (tr_expires_in tr),
                                       t', [PostToken, StoreSet state f])
                                  | None \<Rightarrow>
                                      (SignedInHtml
                                         (map_option (\<lambda>e. max 1 (e div 60)) (tr_expires_in tr))
                                         uid (tr_expires_in tr),
                                       t', [PostToken, StoreSet state f])))))))"

text \<open>The replies that report a login.\<close>

fun logged_in :: "callback_reply \<Rightarrow> bool" where
  "logged_in (LoggedInJson _ _) = True"
| "logged_in (SignedInHtml _ _ _) = True"
| "logged_in _ = False"

text \<open>A \<open>format\<close> parameter that is a string, or missing.\<close>

definition plain_format :: "callback_query \<Rightarrow> bool" where
  "plain_format q = (case q_format q of Some (QOther v) \<Rightarrow> False | _ \<Rightarrow> True)"

section \<open>Tool endpoint (index.js)\<close>

text \<open>
  \<open>UUID_RE\<close>, the pattern
  \<open>/^[0-9a-f]{8}-[0-9a-f]{4}-[1-5][0-9a-f]{3}-[89ab][0-9a-f]{3}-[0-9a-f]{12}$/i\<close>,
  as the sequence of its character classes; with the flag \<open>i\<close> a class of letters
  matches both cases.
\<close>

datatype char_class = Hex | Dash | Version | Variant

fun class_match :: "char_class \<Rightarrow> char \<Rightarrow> bool" where
  "class_match Hex c = (c \<in> set ''0123456789abcdefABCDEF'')"
| "class_match Dash c = (c = CHR ''-'')"
| "class_match Version c = (c \<in> set ''12345'')"
| "class_match Variant c = (c \<in> set ''89abAB'')"

definition UUID_RE :: "char_class list" where
  "UUID_RE = replicate 8 Hex @ [Dash] @ replicate 4 Hex @ [Dash] @ [Version] @ replicate 3 Hex
             @ [Dash] @ [Variant] @ replicate 3 Hex @ [Dash] @ replicate 12 Hex"

definition UUID_RE_test :: "string \<Rightarrow> bool" where
  "UUID_RE_test s = list_all2 class_match UUID_RE s"

definition BAD_TOKENS :: "string list" where
  "BAD_TOKENS = ['''', ''new'', ''temp'', ''current'', ''me'', ''self'']"

text \<open>The JSON bodies the handler sends: objects of booleans and strings, keys in order.\<close>

datatype jval = JBool bool | JStr string

record reply =
  res_status :: nat
  res_json :: "(string \<times> jval) list"

text \<open>What the handler reads of the request before it dispatches the action.\<close>

record tool_request =
  authorization :: "string option"
  body_user_id :: "string option"

text \<open>
  The handler either sends a reply, or goes on to step 4 (the dispatch on the action)
  with a token and the \<open>user_id\<close>.
\<close>

datatype outcome = Respond reply | Execute string string

text \<open>
  \<open>app.post("/execute_tool")\<close>, steps 1 to 3. \<open>API_KEY\<close> and \<open>BASE_URL\<close> are the
  configuration, \<open>minted\<close> the value of \<open>crypto.randomUUID()\<close>, \<open>now\<close> the clock value
  \<open>getValidToken\<close> reads. \<open>res.json\<close> sends status 200 unless \<open>res.status\<close> was called.
\<close>

definition execute_tool ::
  "string \<Rightarrow> string \<Rightarrow> string \<Rightarrow> int \<Rightarrow> tokens \<Rightarrow> tool_request \<Rightarrow> outcome" where
  "execute_tool API_KEY BASE_URL minted now t req =
     (let authHeader = or_empty (authorization req);
          providedKey = (if startsWith authHeader ''Bearer '' then Some (drop 7 authHeader)
                         else None)
      in if \<not> js_truthy providedKey \<or> providedKey \<noteq> Some API_KEY
         then Respond \<lparr>res_status = 401,
               res_json = [(''error'', JStr ''Invalid API key''),
                           (''requires_login'', JBool True),
                           (''login_url'', JStr (BASE_URL @ ''/login?user_id=temp''))]\<rparr>
         else
           (let uid = trim (or_empty (body_user_id req))
            in if uid = [] \<or> toLowerCase uid \<in> set BAD_TOKENS \<or> \<not> UUID_RE_test uid
               then Respond \<lparr>res_status = 400,
                     res_json =
                       [(''error'', JStr ''user_id_required''),
                        (''message'', JStr (''Always send the SAME `user_id` you previously received as `user_id_used`. ''
                           @ ''Use the `user_id` below to login, then reuse it on every request.'')),
                        (''requires_login'', JBool True),
                        (''user_id'', JStr minted),
                        (''login_url'',
                           JStr (BASE_URL @ ''/login?user_id='' @ encodeURIComponent minted))]\<rparr>
               else
                 (let token = getValidToken t now uid
                  in if \<not> js_truthy token
                     then Respond \<lparr>res_status = 200,
                           res_json =
                             [(''requires_login'', JBool True),
                              (''user_id'', JStr uid),
                              (''login_url'',
                                 JStr (BASE_URL @ ''/login?user_id='' @ encodeURIComponent uid))]\<rparr>
                     else Execute (or_empty token) uid)))"

section \<open>Graph calls: GET with backoff\<close>

text \<open>
  The error \<open>axios.get\<close> rejects with: \<open>e.response?.status\<close> (absent when there was no
  response: a network error or the 30 s timeout), the header
  \<open>e.response?.headers?.["retry-after"]\<close>, and the body.
\<close>

record http_error =
  err_status :: "nat option"
  retry_after :: "string option"
  err_body :: string

text \<open>
  \<open>resp.data\<close> of a page: its \<open>value\<close> array and its \<open>@odata.nextLink\<close>, each of which
  may be missing.
\<close>

record 'a page =
  page_value :: "'a list option"
  nextLink :: "string option"

datatype 'a response = Resolved "'a page" | Rejected http_error

text \<open>
  The remote side: the outcome of the GET of a URL, given how many GETs were issued
  before it. The headers of the request are the same for every GET of a scan and are
  left out.
\<close>

type_synonym 'a network = "nat \<Rightarrow> string \<Rightarrow> 'a response"

text \<open>
  A number of the language, without the rounding of doubles: not-a-number, a rational,
  or one of the two infinities.
\<close>

datatype jsnum = NaN | Num rat | PosInf | NegInf

text \<open>
  What a scan has done so far: the URLs of the GETs it issued and the delays (in ms) it
  passed to \<open>setTimeout\<close> and waited for, both in order.
\<close>

record io =
  requests :: "string list"
  sleeps :: "jsnum list"

text \<open>\<open>s === 429 || s >= 500\<close>; with \<open>s\<close> undefined both tests are false.\<close>

definition retryable :: "nat option \<Rightarrow> bool" where
  "retryable s = (case s of None \<Rightarrow> False | Some n \<Rightarrow> n = 429 \<or> n \<ge> 500)"

text \<open>
  \<open>Number(h)\<close> for a header value, by the grammar of numeric strings: NaN for
  undefined; for a string, white space around it is dropped; the empty string is 0; a
  literal with the prefix \<open>0x\<close>, \<open>0o\<close> or \<open>0b\<close> (either case, no sign) is its value in
  that base; otherwise an optional sign and then \<open>Infinity\<close> or decimal digits with an
  optional fraction and an optional exponent; everything else, as an HTTP date, is NaN.
  The value is the exact rational: the rounding to a double, and the overflow to an
  infinity beyond the largest double, are not part of this model.
\<close>

definition is_digit :: "char \<Rightarrow> bool" where
  "is_digit c = (c \<in> set ''0123456789'')"

definition digit_val :: "char \<Rightarrow> nat" where
  "digit_val c = of_char c - 48"

definition decimal :: "string \<Rightarrow> nat" where
  "decimal s = foldl (\<lambda>n c. 10 * n + digit_val c) 0 s"

definition radix_digit :: "char \<Rightarrow> nat option" where
  "radix_digit c =
     map_of (zip ''0123456789abcdefABCDEF''
               [0, 1, 2, 3, 4, 5, 6, 7, 8, 9, 10, 11, 12, 13, 14, 15, 10, 11, 12, 13, 14, 15]) c"

fun radix_value :: "nat \<Rightarrow> nat \<Rightarrow> string \<Rightarrow> nat option" where
  "radix_value b acc [] = Some acc"
| "radix_value b acc (c # cs) =
     (case radix_digit c of
        None \<Rightarrow> None
      | Some v \<Rightarrow> if v < b then radix_value b (b * acc + v) cs else None)"

definition prefixed :: "nat \<Rightarrow> string \<Rightarrow> jsnum" where
  "prefixed b ds =
     (if ds = [] then NaN
      else case radix_value b 0 ds of None \<Rightarrow> NaN | Some n \<Rightarrow> Num (of_nat n))"

definition strip_sign :: "string \<Rightarrow> bool \<times> string" where
  "strip_sign s =
     (case s of
        [] \<Rightarrow> (False, s)
      | c # cs \<Rightarrow> if c = CHR ''-'' then (True, cs)
                  else if c = CHR ''+'' then (False, cs) else (False, s))"

text \<open>The exponent part of a decimal literal (\<open>None\<close> when it is malformed), 0 when absent.\<close>

definition exponent_part :: "string \<Rightarrow> int option" where
  "exponent_part s =
     (case s of
        [] \<Rightarrow> Some 0
      | c # cs \<Rightarrow>
          if c = CHR ''e'' \<or> c = CHR ''E''
          then (case strip_sign cs of
                  (neg, ds) \<Rightarrow>
                    if ds \<noteq> [] \<and> list_all is_digit ds
                    then Some (if neg then - int (decimal ds) else int (decimal ds))
                    else None)
          else None)"

definition pow10 :: "int \<Rightarrow> rat" where
  "pow10 k = (if 0 \<le> k then 10 ^ nat k else 1 / 10 ^ nat (- k))"

text \<open>
  An unsigned decimal literal: digits, an optional point and digits (at least one digit
  in all), an optional exponent.
\<close>

definition unsigned_decimal :: "string \<Rightarrow> rat option" where
  "unsigned_decimal s =
     (let ip = takeWhile is_digit s;
          r1 = dropWhile is_digit s;
          (fp, r2) = (case r1 of
                        [] \<Rightarrow> ([], [])
                      | c # cs \<Rightarrow> if c = CHR ''.''
                                  then (takeWhile is_digit cs, dropWhile is_digit cs)
                                  else ([], r1))
      in if ip = [] \<and> fp = [] then None
         else case exponent_part r2 of
                None \<Rightarrow> None
              | Some ex \<Rightarrow> Some (of_nat (decimal (ip @ fp)) * pow10 (ex - int (length fp))))"

definition Number_js :: "string option \<Rightarrow> jsnum" where
  "Number_js h =
     (case h of
        None \<Rightarrow> NaN
      | Some raw \<Rightarrow>
          (let s = trim raw
           in if s = [] then Num 0
              else if take 2 s = ''0x'' \<or> take 2 s = ''0X'' then prefixed 16 (drop 2 s)
              else if take 2 s = ''0o'' \<or> take 2 s = ''0O'' then prefixed 8 (drop 2 s)
              else if take 2 s = ''0b'' \<or> take 2 s = ''0B'' then prefixed 2 (drop 2 s)
              else (case strip_sign s of
                      (neg, u) \<Rightarrow>
                        if u = ''Infinity'' then (if neg then NegInf else PosInf)
                        else (case unsigned_decimal u of
                                None \<Rightarrow> NaN
                              | Some v \<Rightarrow> Num (if neg then - v else v)))))"

text \<open>Truthiness of a number: NaN and 0 are falsy.\<close>

fun number_truthy :: "jsnum \<Rightarrow> bool" where
  "number_truthy NaN = False"
| "number_truthy (Num r) = (r \<noteq> 0)"
| "number_truthy PosInf = True"
| "number_truthy NegInf = True"

text \<open>\<open>Number(...) || Math.min(2 ** attempt, 16)\<close>, in seconds.\<close>

definition retryAfter :: "http_error \<Rightarrow> nat \<Rightarrow> jsnum" where
  "retryAfter e attempt =
     (if number_truthy (Number_js (retry_after e)) then Number_js (retry_after e)
      else Num (of_nat (min (2 ^ attempt) 16)))"

text \<open>\<open>retryAfter * 1000\<close>.\<close>

fun times_1000 :: "jsnum \<Rightarrow> jsnum" where
  "times_1000 NaN = NaN"
| "times_1000 (Num r) = Num (r * 1000)"
| "times_1000 PosInf = PosInf"
| "times_1000 NegInf = NegInf"

text \<open>
  The loop of \<open>httpGetWithBackoff\<close> from a value of \<open>attempt\<close>: the result is the response
  it returns (\<open>Inr\<close>) or the error it throws (\<open>Inl\<close>), with what it has done.
\<close>

function httpGetWithBackoff_loop ::
  "'a network \<Rightarrow> string \<Rightarrow> nat \<Rightarrow> nat \<Rightarrow> io \<Rightarrow> (http_error + 'a page) \<times> io" where
  "httpGetWithBackoff_loop net url maxRetries attempt w =
     (case net (length (requests w)) url of
        Resolved p \<Rightarrow> (Inr p, w\<lparr>requests := requests w @ [url]\<rparr>)
      | Rejected e \<Rightarrow>
          if retryable (err_status e) \<and> attempt < maxRetries
          then httpGetWithBackoff_loop net url maxRetries (attempt + 1)
                 (w\<lparr>requests := requests w @ [url],
                    sleeps := sleeps w @ [times_1000 (retryAfter e attempt)]\<rparr>)
          else (Inl e, w\<lparr>requests := requests w @ [url]\<rparr>))"
  by pat_completeness auto
termination
  by (relation "measure (\<lambda>(net, url, maxRetries, attempt, w). maxRetries - attempt)") auto

definition httpGetWithBackoff ::
  "'a network \<Rightarrow> string \<Rightarrow> nat \<Rightarrow> io \<Rightarrow> (http_error + 'a page) \<times> io" where
  "httpGetWithBackoff net url maxRetries w = httpGetWithBackoff_loop net url maxRetries 0 w"

declare httpGetWithBackoff_loop.simps [simp del]

section \<open>Graph calls: paging and messages\<close>

text \<open>
  A Graph message, as far as \<open>mapMsg\<close> reads it; \<open>from_address\<close> is
  \<open>m.from?.emailAddress?.address\<close>. A missing property is \<open>None\<close>.
\<close>

record graph_message =
  gm_id :: "string option"
  receivedDateTime :: "string option"
  sentDateTime :: "string option"
  createdDateTime :: "string option"
  from_address :: "string option"
  gm_subject :: "string option"
  bodyPreview :: "string option"
  parentFolderId :: "string option"

text \<open>The compact shape: \<open>id, received, sent, from, subject, preview, folderId\<close>.\<close>

record mail =
  mail_id :: "string option"
  received :: "string option"
  sent :: "string option"
  mail_from :: "string option"
  subject :: "string option"
  preview :: "string option"
  folderId :: "string option"

definition mapMsg :: "graph_message \<Rightarrow> mail" where
  "mapMsg m =
     \<lparr>mail_id = gm_id m,
      received = receivedDateTime m,
      sent = (if js_truthy (sentDateTime m) then sentDateTime m else createdDateTime m),
      mail_from = from_address m,
      subject = gm_subject m,
      preview = bodyPreview m,
      folderId = parentFolderId m\<rparr>"

text \<open>\<open>resp.data?.value || []\<close>.\<close>

definition page_items :: "'a page \<Rightarrow> 'a list" where
  "page_items p = (case page_value p of None \<Rightarrow> [] | Some xs \<Rightarrow> xs)"

text \<open>
  The generators \<open>listCollection\<close> and \<open>listMessages\<close> (the same code). A generator that
  is not running is at its start with the URL it will fetch, or suspended at the
  \<open>yield\<close> inside a page with the items still to yield and the page's link, or done.
\<close>

datatype 'a generator = Start string | InPage "'a list" "string option" | Done

text \<open>What one resumption of a generator gives its consumer.\<close>

datatype 'a step = Yield 'a "'a generator" | Return | Throw http_error

text \<open>
  One resumption: the generator runs to its next \<open>yield\<close>, to its end, or to the error
  \<open>httpGetWithBackoff\<close> throws. It fetches a page only when the items of the page before
  are used up. It does not return when page after page is empty and linked.
\<close>

partial_function (option) listCollection_next ::
  "'a network \<Rightarrow> 'a generator \<Rightarrow> io \<Rightarrow> ('a step \<times> io) option" where
  "listCollection_next net g w =
     (case g of
        Done \<Rightarrow> Some (Return, w)
      | Start url \<Rightarrow>
          (case httpGetWithBackoff net url 4 w of
             (Inl e, w') \<Rightarrow> Some (Throw e, w')
           | (Inr resp, w') \<Rightarrow>
               listCollection_next net (InPage (page_items resp) (nextLink resp)) w')
      | InPage items next \<Rightarrow>
          (case items of
             it # rest \<Rightarrow> Some (Yield it (InPage rest next), w)
           | [] \<Rightarrow>
               if \<not> js_truthy next then Some (Return, w)
               else listCollection_next net (Start (or_empty next)) w))"

definition listMessages_next ::
  "graph_message network \<Rightarrow> graph_message generator \<Rightarrow> io
     \<Rightarrow> (graph_message step \<times> io) option" where
  "listMessages_next = listCollection_next"

text \<open>
  The loop of the readers, \<open>for await (const m of listMessages(...))\<close> with
  \<open>out.push(mapMsg(m)); if (out.length >= bound) break\<close>: the result is \<open>out\<close>, or the
  error the generator threw. After the \<open>break\<close> the generator is not resumed.
\<close>

partial_function (option) read_loop ::
  "graph_message network \<Rightarrow> int \<Rightarrow> graph_message generator \<Rightarrow> mail list \<Rightarrow> io
     \<Rightarrow> ((http_error + mail list) \<times> io) option" where
  "read_loop net bound g out w =
     (case listMessages_next net g w of
        None \<Rightarrow> None
      | Some (Throw e, w') \<Rightarrow> Some (Inl e, w')
      | Some (Return, w') \<Rightarrow> Some (Inr out, w')
      | Some (Yield m g', w') \<Rightarrow>
          (let out' = out @ [mapMsg m]
           in if int (length out') \<ge> bound then Some (Inr out', w')
              else read_loop net bound g' out' w'))"

text \<open>
  The loop of \<open>listAllFolders\<close>, \<open>for await (const f of listCollection(...)) out.push(f)\<close>:
  it takes every item the generator yields.
\<close>

partial_function (option) collect_loop ::
  "'a network \<Rightarrow> 'a generator \<Rightarrow> 'a list \<Rightarrow> io \<Rightarrow> ((http_error + 'a list) \<times> io) option" where
  "collect_loop net g out w =
     (case listCollection_next net g w of
        None \<Rightarrow> None
      | Some (Throw e, w') \<Rightarrow> Some (Inl e, w')
      | Some (Return, w') \<Rightarrow> Some (Inr out, w')
      | Some (Yield f g', w') \<Rightarrow> collect_loop net g' (out @ [f]) w')"

section \<open>Graph calls: readers and searches\<close>

text \<open>
  What a query throws: the error of \<open>httpGetWithBackoff\<close>, the \<open>TypeError\<close> of
  \<open>new URL(next)\<close>, or the \<open>Error\<close> for a missing argument.
\<close>

datatype failure = Remote http_error | InvalidURL string | Required string

text \<open>
  \<open>{ results: out, count: out.length }\<close>; the fields that echo an argument (\<open>folder\<close>,
  \<open>folderId\<close>, \<open>email\<close>) are left out.
\<close>

record query_result =
  results :: "mail list"
  count :: nat

definition returned :: "mail list \<Rightarrow> query_result" where
  "returned out = \<lparr>results = out, count = length out\<rparr>"

text \<open>
  The readers build their URL from their arguments and run the same loop over
  \<open>listMessages\<close>; \<open>url\<close> is \<open>url.toString()\<close> of the URL built, and the bound is a
  whole number (\<open>top\<close> or \<open>max\<close>).
\<close>

definition read_messages ::
  "graph_message network \<Rightarrow> string \<Rightarrow> int \<Rightarrow> io \<Rightarrow> ((failure + query_result) \<times> io) option" where
  "read_messages net url bound w =
     (case read_loop net bound (Start url) [] w of
        None \<Rightarrow> None
      | Some (Inl e, w') \<Rightarrow> Some (Inl (Remote e), w')
      | Some (Inr out, w') \<Rightarrow> Some (Inr (returned out), w'))"

definition readLatest ::
  "graph_message network \<Rightarrow> string \<Rightarrow> int \<Rightarrow> io \<Rightarrow> ((failure + query_result) \<times> io) option" where
  "readLatest net url top_n w = read_messages net url top_n w"

definition readSentLatest ::
  "graph_message network \<Rightarrow> string \<Rightarrow> int \<Rightarrow> io \<Rightarrow> ((failure + query_result) \<times> io) option" where
  "readSentLatest net url top_n w = read_messages net url top_n w"

definition readAllMailbox ::
  "graph_message network \<Rightarrow> string \<Rightarrow> int \<Rightarrow> io \<Rightarrow> ((failure + query_result) \<times> io) option" where
  "readAllMailbox net url mx w = read_messages net url mx w"

definition readFolderAll ::
  "graph_message network \<Rightarrow> string \<Rightarrow> int \<Rightarrow> io \<Rightarrow> ((failure + query_result) \<times> io) option" where
  "readFolderAll net url mx w = read_messages net url mx w"

definition filterAllMailByDate ::
  "graph_message network \<Rightarrow> string \<Rightarrow> int \<Rightarrow> io \<Rightarrow> ((failure + query_result) \<times> io) option" where
  "filterAllMailByDate net url top_n w = read_messages net url top_n w"

text \<open>\<open>readFolderByIdAll\<close> throws first when \<open>folderId\<close> is falsy.\<close>

definition readFolderByIdAll ::
  "graph_message network \<Rightarrow> string option \<Rightarrow> string \<Rightarrow> int \<Rightarrow> io
     \<Rightarrow> ((failure + query_result) \<times> io) option" where
  "readFolderByIdAll net folder_id url mx w =
     (if \<not> js_truthy folder_id then Some (Inl (Required ''folderId is required''), w)
      else read_messages net url mx w)"

text \<open>
  The comparison \<open>a.received < b.received\<close>: strings compare by code units, and a
  comparison with undefined is false.
\<close>

fun str_lt :: "string \<Rightarrow> string \<Rightarrow> bool" where
  "str_lt [] [] = False"
| "str_lt [] (y # ys) = True"
| "str_lt (x # xs) [] = False"
| "str_lt (x # xs) (y # ys) =
     ((of_char x :: nat) < of_char y \<or> (x = y \<and> str_lt xs ys))"

definition js_lt :: "string option \<Rightarrow> string option \<Rightarrow> bool" where
  "js_lt a b = (case a of None \<Rightarrow> False
                | Some x \<Rightarrow> (case b of None \<Rightarrow> False | Some y \<Rightarrow> str_lt x y))"

text \<open>The comparator \<open>(a, b) => (a.received < b.received ? 1 : -1)\<close>.\<close>

definition by_received :: "mail \<Rightarrow> mail \<Rightarrow> int" where
  "by_received a b = (if js_lt (received a) (received b) then 1 else - 1)"

text \<open>
  \<open>Array.prototype.sort\<close> with a comparator, as an insertion sort: each element goes
  before the first one it compares below. Where the comparator is not consistent (this
  one is not on equal or missing timestamps) the language leaves the order to the
  implementation, and this is one such order.
\<close>

fun sort_insert :: "('a \<Rightarrow> 'a \<Rightarrow> int) \<Rightarrow> 'a \<Rightarrow> 'a list \<Rightarrow> 'a list" where
  "sort_insert cmp x [] = [x]"
| "sort_insert cmp x (y # ys) = (if cmp x y < 0 then x # y # ys else y # sort_insert cmp x ys)"

definition js_sort :: "('a \<Rightarrow> 'a \<Rightarrow> int) \<Rightarrow> 'a list \<Rightarrow> 'a list" where
  "js_sort cmp xs = foldl (\<lambda>acc x. sort_insert cmp x acc) [] xs"

text \<open>
  The inner loop of the searches over the items of one page: it pushes the mapped items
  and stops (\<open>True\<close>) as soon as \<open>out.length >= bound\<close>.
\<close>

fun push_until :: "int \<Rightarrow> mail list \<Rightarrow> graph_message list \<Rightarrow> mail list \<times> bool" where
  "push_until bound out [] = (out, False)"
| "push_until bound out (m # ms) =
     (let out' = out @ [mapMsg m]
      in if int (length out') \<ge> bound then (out', True) else push_until bound out' ms)"

text \<open>
  The page loop of \<open>searchAllMail\<close> and of \<open>searchBySenderEmail\<close> (the same code): both
  exits sort \<open>out\<close>. \<open>URL\<close> is \<open>new URL(next).toString()\<close>, \<open>None\<close> where the constructor
  throws.
\<close>

partial_function (option) search_sorted_loop ::
  "(string \<Rightarrow> string option) \<Rightarrow> graph_message network \<Rightarrow> int \<Rightarrow> string \<Rightarrow> mail list \<Rightarrow> io
     \<Rightarrow> ((failure + query_result) \<times> io) option" where
  "search_sorted_loop URL net bound url out w =
     (case httpGetWithBackoff net url 4 w of
        (Inl e, w') \<Rightarrow> Some (Inl (Remote e), w')
      | (Inr resp, w') \<Rightarrow>
          (case push_until bound out (page_items resp) of
             (out', stop) \<Rightarrow>
               if stop then Some (Inr (returned (js_sort by_received out')), w')
               else if \<not> js_truthy (nextLink resp)
               then Some (Inr (returned (js_sort by_received out')), w')
               else (case URL (or_empty (nextLink resp)) of
                       None \<Rightarrow> Some (Inl (InvalidURL (or_empty (nextLink resp))), w')
                     | Some url' \<Rightarrow> search_sorted_loop URL net bound url' out' w')))"

definition searchAllMail ::
  "(string \<Rightarrow> string option) \<Rightarrow> graph_message network \<Rightarrow> string \<Rightarrow> int \<Rightarrow> io
     \<Rightarrow> ((failure + query_result) \<times> io) option" where
  "searchAllMail URL net url top_n w = search_sorted_loop URL net top_n url [] w"

definition searchBySenderEmail ::
  "(string \<Rightarrow> string option) \<Rightarrow> graph_message network \<Rightarrow> string option \<Rightarrow> string \<Rightarrow> int \<Rightarrow> io
     \<Rightarrow> ((failure + query_result) \<times> io) option" where
  "searchBySenderEmail URL net email url limit w =
     (if \<not> js_truthy email then Some (Inl (Required ''email is required''), w)
      else search_sorted_loop URL net limit url [] w)"

text \<open>The page loop of \<open>searchAllMailAllPages\<close>: neither exit sorts \<open>out\<close>.\<close>

partial_function (option) searchAllMailAllPages_loop ::
  "(string \<Rightarrow> string option) \<Rightarrow> graph_message network \<Rightarrow> int \<Rightarrow> string \<Rightarrow> mail list \<Rightarrow> io
     \<Rightarrow> ((failure + query_result) \<times> io) option" where
  "searchAllMailAllPages_loop URL net mx url out w =
     (case httpGetWithBackoff net url 4 w of
        (Inl e, w') \<Rightarrow> Some (Inl (Remote e), w')
      | (Inr resp, w') \<Rightarrow>
          (case push_until mx out (page_items resp) of
             (out', stop) \<Rightarrow>
               if stop then Some (Inr (returned out'), w')
               else if \<not> js_truthy (nextLink resp)
               then Some (Inr (returned out'), w')
               else (case URL (or_empty (nextLink resp)) of
                       None \<Rightarrow> Some (Inl (InvalidURL (or_empty (nextLink resp))), w')
                     | Some url' \<Rightarrow> searchAllMailAllPages_loop URL net mx url' out' w')))"

definition searchAllMailAllPages ::
  "(string \<Rightarrow> string option) \<Rightarrow> graph_message network \<Rightarrow> string \<Rightarrow> int \<Rightarrow> io
     \<Rightarrow> ((failure + query_result) \<times> io) option" where
  "searchAllMailAllPages URL net url mx w = searchAllMailAllPages_loop URL net mx url [] w"

text \<open>A list of mails is sorted by received timestamp, descending.\<close>

fun received_desc :: "mail list \<Rightarrow> bool" where
  "received_desc [] = True"
| "received_desc [a] = True"
| "received_desc (a # b # ms) = (\<not> js_lt (received a) (received b) \<and> received_desc (b # ms))"

text \<open>A remote side on which every GET succeeds: a page for every URL.\<close>

definition reliable :: "(string \<Rightarrow> 'a page) \<Rightarrow> 'a network" where
  "reliable srv = (\<lambda>n url. Resolved (srv url))"

text \<open>
  A finite paged collection: from \<open>url\<close> the pages \<open>ps\<close> follow one another by their
  links, and the last one has none.
\<close>

fun paged :: "(string \<Rightarrow> 'a page) \<Rightarrow> string \<Rightarrow> 'a page list \<Rightarrow> bool" where
  "paged srv url [] = False"
| "paged srv url [p] = (srv url = p \<and> \<not> js_truthy (nextLink p))"
| "paged srv url (p # q # ps) =
     (srv url = p \<and> js_truthy (nextLink p) \<and> paged srv (or_empty (nextLink p)) (q # ps))"

text \<open>The URLs of these pages: the first URL, then the link of each page but the last.\<close>

fun page_urls :: "string \<Rightarrow> 'a page list \<Rightarrow> string list" where
  "page_urls url [] = []"
| "page_urls url (p # ps) = url # page_urls (or_empty (nextLink p)) ps"

text \<open>
  A generator from which a link leads on: it has not ended, and a page it is in has a
  link.
\<close>

fun linked :: "'a generator \<Rightarrow> bool" where
  "linked (Start url) = True"
| "linked (InPage items next) = js_truthy next"
| "linked Done = False"

text \<open>How many of the pages hold the first \<open>n\<close> items (for \<open>n\<close> from 1 on).\<close>

fun pages_needed :: "nat \<Rightarrow> 'a page list \<Rightarrow> nat" where
  "pages_needed n [] = 0"
| "pages_needed n (p # ps) =
     (if n \<le> length (page_items p) then 1
      else 1 + pages_needed (n - length (page_items p)) ps)"

section \<open>Example data and the predicates of the properties\<close>

text \<open>
  A transient error, by its status: 429, or a status from 500 on. An error with no
  status (no response) is not one.
\<close>

definition transient :: "http_error \<Rightarrow> bool" where
  "transient e = (case err_status e of None \<Rightarrow> False | Some s \<Rightarrow> s = 429 \<or> 500 \<le> s)"

text \<open>
  The remote side rejects the GETs of \<open>url\<close> from GET number \<open>c\<close> on with the errors
  \<open>es\<close>, one after the other, each of them transient.
\<close>

fun rejects :: "'a network \<Rightarrow> nat \<Rightarrow> string \<Rightarrow> http_error list \<Rightarrow> bool" where
  "rejects net c url [] = True"
| "rejects net c url (e # es) =
     (net c url = Rejected e \<and> transient e \<and> rejects net (Suc c) url es)"

text \<open>The delays that follow these errors, the first of them at the given attempt.\<close>

fun delays :: "nat \<Rightarrow> http_error list \<Rightarrow> jsnum list" where
  "delays attempt [] = []"
| "delays attempt (e # es) = times_1000 (retryAfter e attempt) # delays (Suc attempt) es"

text \<open>Example data: a message with an id and a received timestamp, and three pages.\<close>

definition example_message :: "string \<Rightarrow> string \<Rightarrow> graph_message" where
  "example_message i r =
     \<lparr>gm_id = Some i, receivedDateTime = Some r, sentDateTime = None, createdDateTime = None,
      from_address = None, gm_subject = None, bodyPreview = None, parentFolderId = None\<rparr>"

definition example_mail :: "string \<Rightarrow> string \<Rightarrow> mail" where
  "example_mail i r =
     \<lparr>mail_id = Some i, received = Some r, sent = None, mail_from = None, subject = None,
      preview = None, folderId = None\<rparr>"

definition three_pages :: "string \<Rightarrow> graph_message page" where
  "three_pages url =
     (if url = ''/page1''
      then \<lparr>page_value = Some [example_message ''a'' ''2024-05-05'', example_message ''b'' ''2024-05-04''],
            nextLink = Some ''/page2''\<rparr>
      else if url = ''/page2''
      then \<lparr>page_value = Some [example_message ''c'' ''2024-05-03'', example_message ''d'' ''2024-05-02''],
            nextLink = Some ''/page3''\<rparr>
      else \<lparr>page_value = Some [example_message ''e'' ''2024-05-01''], nextLink = None\<rparr>)"

text \<open>
  How a scan of a collection ends: at a page without a link, or at a GET that fails (it
  is rejected with transient errors and then with the error that is thrown).
\<close>

datatype ending = NoLink | Fails "http_error list" http_error

text \<open>
  What the remote side does during a scan that starts with GET number \<open>c\<close> at \<open>url\<close>: a
  list of pages, each with the transient errors that come before it (at most 4), the
  items of its \<open>value\<close> array (none when it has no \<open>value\<close>) and its link; every page but
  the last has a link, which is not empty and is where the next page is asked for; after
  a last page with a link the next GET fails.
\<close>

fun pages_then ::
  "'a network \<Rightarrow> nat \<Rightarrow> string \<Rightarrow> (http_error list \<times> 'a list \<times> string option) list \<Rightarrow> ending
     \<Rightarrow> bool" where
  "pages_then net c url [] fin =
     (case fin of
        NoLink \<Rightarrow> False
      | Fails es e \<Rightarrow>
          length es \<le> 4 \<and> rejects net c url es \<and> net (c + length es) url = Rejected e \<and>
          (\<not> transient e \<or> length es = 4))"
| "pages_then net c url ((es, items, link) # rest) fin =
     (length es \<le> 4 \<and> rejects net c url es \<and>
      (case net (c + length es) url of
         Rejected e \<Rightarrow> False
       | Resolved p \<Rightarrow>
           nextLink p = link \<and>
           (page_value p = Some items \<or> page_value p = None \<and> items = [])) \<and>
      (case link of
         None \<Rightarrow> rest = [] \<and> fin = NoLink
       | Some l \<Rightarrow> if l = [] then rest = [] \<and> fin = NoLink
                   else pages_then net (c + length es + 1) l rest fin))"

text \<open>The items of these pages, in order.\<close>

fun script_items :: "(http_error list \<times> 'a list \<times> string option) list \<Rightarrow> 'a list" where
  "script_items [] = []"
| "script_items ((es, items, link) # rest) = items @ script_items rest"

text \<open>
  The GETs of such a scan: for each page one GET for each error before it and the one
  that succeeds, at the URL the page is asked for; the same for the GET that fails.
\<close>

fun script_requests ::
  "string \<Rightarrow> (http_error list \<times> 'a list \<times> string option) list \<Rightarrow> ending \<Rightarrow> string list" where
  "script_requests url [] fin =
     (case fin of NoLink \<Rightarrow> [] | Fails es e \<Rightarrow> replicate (Suc (length es)) url)"
| "script_requests url ((es, items, link) # rest) fin =
     replicate (Suc (length es)) url
       @ script_requests (case link of None \<Rightarrow> [] | Some l \<Rightarrow> l) rest fin"

text \<open>The waits of such a scan.\<close>

fun script_sleeps ::
  "(http_error list \<times> 'a list \<times> string option) list \<Rightarrow> ending \<Rightarrow> jsnum list" where
  "script_sleeps [] fin = (case fin of NoLink \<Rightarrow> [] | Fails es e \<Rightarrow> delays 0 es)"
| "script_sleeps ((es, items, link) # rest) fin = delays 0 es @ script_sleeps rest fin"

text \<open>How many of the pages hold the first \<open>n\<close> items (for \<open>n\<close> from 1 on).\<close>

fun entries_needed :: "nat \<Rightarrow> (http_error list \<times> 'a list \<times> string option) list \<Rightarrow> nat" where
  "entries_needed n [] = 0"
| "entries_needed n ((es, items, link) # rest) =
     (if n \<le> length items then 1 else 1 + entries_needed (n - length items) rest)"

text \<open>What a scan returns at its end: what it accumulated, or the error thrown.\<close>

fun at_end :: "ending \<Rightarrow> 'b \<Rightarrow> http_error + 'b" where
  "at_end NoLink out = Inr out"
| "at_end (Fails es e) out = Inl e"

text \<open>
  Example remote sides: the three pages with one GET of the second rejected with 429
  and \<open>Retry-After: 3\<close>, and the three pages with every GET of the second rejected
  with 404.
\<close>

definition too_many_requests :: http_error where
  "too_many_requests = \<lparr>err_status = Some 429, retry_after = Some ''3'', err_body = ''slow down''\<rparr>"

definition not_found :: http_error where
  "not_found = \<lparr>err_status = Some 404, retry_after = None, err_body = ''gone''\<rparr>"

definition flaky_pages :: "graph_message network" where
  "flaky_pages n url =
     (if url = ''/page2'' \<and> n = 1 then Rejected too_many_requests
      else Resolved (three_pages url))"

definition broken_pages :: "graph_message network" where
  "broken_pages n url =
     (if url = ''/page2'' then Rejected not_found else Resolved (three_pages url))"

text \<open>A page whose items come oldest first.\<close>

definition oldest_first :: "string \<Rightarrow> graph_message page" where
  "oldest_first url =
     \<lparr>page_value = Some [example_message ''x'' ''2024-05-01'', example_message ''y'' ''2024-05-02''],
      nextLink = None\<rparr>"

text \<open>
  What holds of a result for a bound: its count is the length of its results, and the
  results are no more than a bound that is at least 1.
\<close>

definition within :: "int \<Rightarrow> query_result \<Rightarrow> bool" where
  "within bound r = (count r = length (results r) \<and>
                      (1 \<le> bound \<longrightarrow> int (length (results r)) \<le> bound))"

section \<open>Properties of the token store\<close>

lemma find_map_update:
  assumes "\<And>r. user_id (g r) = user_id r"
  shows "find (\<lambda>r. user_id r = k) (map (\<lambda>r. if user_id r = k then g r else r) t)
         = map_option g (find (\<lambda>r. user_id r = k) t)"
  using assms by (induction t) auto

lemma find_None_iff_not_ex: "find P t = None \<longleftrightarrow> \<not> list_ex P t"
  by (induction t) auto

lemma find_append_new:
  "\<not> list_ex P t \<Longrightarrow> P x \<Longrightarrow> find P (t @ [x]) = Some x"
  by (induction t) auto

lemma get_after_set:
  assumes "tokenStore_set t k c ts = Inr t'"
  shows "\<exists>a e. new_access_token c = Some a \<and> new_expiry c = Some e \<and>
           tokenStore_get t' k =
             Some \<lparr>user_id = k, access_token = a, refresh_token = new_refresh_token c,
                   expiry = e, scopes = new_scopes c,
                   created_at = (case tokenStore_get t k of None \<Rightarrow> ts | Some r \<Rightarrow> created_at r),
                   updated_at = ts\<rparr>"
proof -
  from assms obtain a e where a: "new_access_token c = Some a" and e: "new_expiry c = Some e"
    by (auto simp: tokenStore_set_def upsertStmt_def split: option.splits)
  show ?thesis
  proof (cases "list_ex (\<lambda>r. user_id r = k) t")
    case True
    then obtain r where r: "find (\<lambda>r. user_id r = k) t = Some r"
      using find_None_iff_not_ex [of "\<lambda>r. user_id r = k" t] by (cases "find (\<lambda>r. user_id r = k) t") auto
    then have uk: "user_id r = k"
      by (auto simp: find_Some_iff)
    from True a e assms have t': "t' = map (\<lambda>r. if user_id r = k
            then r\<lparr>access_token := a, refresh_token := new_refresh_token c,
                    expiry := e, scopes := new_scopes c, updated_at := ts\<rparr> else r) t"
      by (simp add: tokenStore_set_def upsertStmt_def)
    have "tokenStore_get t' k = Some (r\<lparr>access_token := a, refresh_token := new_refresh_token c,
                    expiry := e, scopes := new_scopes c, updated_at := ts\<rparr>)"
      unfolding tokenStore_get_def t'
      by (subst find_map_update) (simp_all add: r)
    with a e r uk show ?thesis
      by (simp add: tokenStore_get_def)
  next
    case False
    with a e assms have t': "t' = t @ [\<lparr>user_id = k, access_token = a,
                               refresh_token = new_refresh_token c, expiry = e,
                               scopes = new_scopes c, created_at = ts, updated_at = ts\<rparr>]"
      by (simp add: tokenStore_set_def upsertStmt_def)
    from False have "find (\<lambda>r. user_id r = k) t = None"
      by (simp add: find_None_iff_not_ex)
    with a e False show ?thesis
      unfolding tokenStore_get_def t' by (simp add: find_append_new)
  qed
qed

lemma map_user_id_update:
  assumes "\<And>r. user_id (g r) = user_id r"
  shows "map user_id (map (\<lambda>r. if user_id r = k then g r else r) t) = map user_id t"
  using assms by (induction t) auto

lemma set_keeps_primary_key:
  assumes "primary_key t" and "tokenStore_set t k c ts = Inr t'"
  shows "primary_key t'"
proof -
  from assms(2) obtain a e where a: "new_access_token c = Some a" and e: "new_expiry c = Some e"
    by (auto simp: tokenStore_set_def upsertStmt_def split: option.splits)
  show ?thesis
  proof (cases "list_ex (\<lambda>r. user_id r = k) t")
    case True
    with a e assms(2) have "map user_id t' = map user_id t"
      unfolding tokenStore_set_def upsertStmt_def
      by (auto simp del: map_map intro!: map_user_id_update)
    with assms(1) show ?thesis
      by (simp add: primary_key_def)
  next
    case False
    with a e assms(2) have "map user_id t' = map user_id t @ [k]"
      unfolding tokenStore_set_def upsertStmt_def by auto
    moreover from False have "k \<notin> set (map user_id t)"
      by (auto simp: list_ex_iff)
    ultimately show ?thesis
      using assms(1) by (simp add: primary_key_def)
  qed
qed

lemma set_succeeds:
  assumes "new_access_token c = Some a" and "new_expiry c = Some e"
  shows "\<exists>t'. tokenStore_set t k c ts = Inr t'"
  using assms by (simp add: tokenStore_set_def upsertStmt_def)

text \<open>
  C4: for every key \<open>k\<close> and field sets \<open>c1\<close>, \<open>c2\<close> (with the two \<open>NOT NULL\<close> fields
  present), \<open>set(k, c1)\<close> at time \<open>ts1\<close> and then \<open>set(k, c2)\<close> at time \<open>ts2\<close> both succeed,
  and \<open>get(k)\<close> then returns a row whose access token, refresh token, expiry and scopes
  are exactly those of \<open>c2\<close>, whose \<open>created_at\<close> is the one the row had after the first
  write (the time \<open>ts1\<close> when \<open>k\<close> was new, the older row's otherwise) and whose
  \<open>updated_at\<close> is \<open>ts2\<close>.
\<close>

theorem set_set_get_last_write_wins:
  assumes "new_access_token c1 = Some a1" and "new_expiry c1 = Some e1"
      and "new_access_token c2 = Some a2" and "new_expiry c2 = Some e2"
  shows "\<exists>t1 t2 r1.
           tokenStore_set t k c1 ts1 = Inr t1 \<and> tokenStore_set t1 k c2 ts2 = Inr t2 \<and>
           tokenStore_get t1 k = Some r1 \<and>
           created_at r1 = (case tokenStore_get t k of None \<Rightarrow> ts1 | Some r0 \<Rightarrow> created_at r0) \<and>
           tokenStore_get t2 k =
             Some \<lparr>user_id = k, access_token = a2, refresh_token = new_refresh_token c2,
                   expiry = e2, scopes = new_scopes c2,
                   created_at = created_at r1, updated_at = ts2\<rparr>"
proof -
  from set_succeeds [OF assms(1,2)] obtain t1 where t1: "tokenStore_set t k c1 ts1 = Inr t1"
    by blast
  from set_succeeds [OF assms(3,4)] obtain t2 where t2: "tokenStore_set t1 k c2 ts2 = Inr t2"
    by blast
  from get_after_set [OF t1] assms(1,2) obtain r1 where
    r1: "tokenStore_get t1 k = Some r1"
    and c1: "created_at r1 = (case tokenStore_get t k of None \<Rightarrow> ts1 | Some r0 \<Rightarrow> created_at r0)"
    by auto
  from get_after_set [OF t2] assms(3,4) r1 have
    "tokenStore_get t2 k =
       Some \<lparr>user_id = k, access_token = a2, refresh_token = new_refresh_token c2,
             expiry = e2, scopes = new_scopes c2,
             created_at = created_at r1, updated_at = ts2\<rparr>"
    by auto
  with t1 t2 r1 c1 show ?thesis
    by blast
qed

theorem set_set_get_last_write_wins_witness:
  "new_access_token \<lparr>new_access_token = Some ''A1'', new_refresh_token = Some ''R1'',
                      new_expiry = Some 5000, new_scopes = Some ''Mail.ReadWrite''\<rparr> = Some ''A1'' \<and>
   (\<exists>t1 t2 r1.
      tokenStore_set [] ''k''
        \<lparr>new_access_token = Some ''A1'', new_refresh_token = Some ''R1'',
         new_expiry = Some 5000, new_scopes = Some ''Mail.ReadWrite''\<rparr> 10 = Inr t1 \<and>
      tokenStore_set t1 ''k''
        \<lparr>new_access_token = Some ''A2'', new_refresh_token = None,
         new_expiry = Some 9000, new_scopes = Some ''Mail.ReadWrite''\<rparr> 20 = Inr t2 \<and>
      tokenStore_get t1 ''k'' = Some r1 \<and>
      tokenStore_get t2 ''k'' =
        Some \<lparr>user_id = ''k'', access_token = ''A2'', refresh_token = None,
              expiry = 9000, scopes = Some ''Mail.ReadWrite'',
              created_at = 10, updated_at = 20\<rparr>)"
  using set_set_get_last_write_wins
    [of "\<lparr>new_access_token = Some ''A1'', new_refresh_token = Some ''R1'',
          new_expiry = Some 5000, new_scopes = Some ''Mail.ReadWrite''\<rparr>" "''A1''" 5000
        "\<lparr>new_access_token = Some ''A2'', new_refresh_token = None,
          new_expiry = Some 9000, new_scopes = Some ''Mail.ReadWrite''\<rparr>" "''A2''" 9000
        "[]" "''k''" 10 20]
  by (auto simp: tokenStore_get_def)

lemma get_filter_primary_key:
  assumes "distinct (map user_id t)"
  shows "find (\<lambda>r. user_id r = k) (filter P t)
         = (case find (\<lambda>r. user_id r = k) t of
              None \<Rightarrow> None
            | Some r \<Rightarrow> if P r then Some r else None)"
  using assms
proof (induction t)
  case Nil
  show ?case by simp
next
  case (Cons x t)
  show ?case
  proof (cases "user_id x = k")
    case True
    from Cons.prems have "user_id x \<notin> user_id ` set t"
      by simp
    with True have "\<not> list_ex (\<lambda>r. user_id r = k) t"
      unfolding list_ex_iff by blast
    then have "\<not> list_ex (\<lambda>r. user_id r = k) (filter P t)"
      by (auto simp: list_ex_iff)
    then have "find (\<lambda>r. user_id r = k) (filter P t) = None"
      by (simp add: find_None_iff_not_ex)
    with True show ?thesis by simp
  next
    case False
    with Cons show ?thesis by simp
  qed
qed

lemma expired_keys_card:
  assumes "distinct (map user_id t)"
  shows "card {k. \<exists>r. find (\<lambda>r. user_id r = k) t = Some r \<and> P r} = length (filter P t)"
proof -
  have "{k. \<exists>r. find (\<lambda>r. user_id r = k) t = Some r \<and> P r} = set (map user_id (filter P t))"
  proof (intro set_eqI iffI)
    fix k assume "k \<in> {k. \<exists>r. find (\<lambda>r. user_id r = k) t = Some r \<and> P r}"
    then obtain r where "find (\<lambda>r. user_id r = k) t = Some r" and "P r" by blast
    then have "r \<in> set t" and "user_id r = k"
      by (auto simp: find_Some_iff)
    with \<open>P r\<close> show "k \<in> set (map user_id (filter P t))" by force
  next
    fix k assume "k \<in> set (map user_id (filter P t))"
    then obtain r where r: "r \<in> set t" "P r" "user_id r = k" by auto
    then have "list_ex (\<lambda>r. user_id r = k) t"
      by (auto simp: list_ex_iff)
    then obtain r' where r': "find (\<lambda>r. user_id r = k) t = Some r'"
      using find_None_iff_not_ex [of "\<lambda>r. user_id r = k" t]
      by (cases "find (\<lambda>r. user_id r = k) t") auto
    then have "r' \<in> set t" "user_id r' = k"
      by (auto simp: find_Some_iff)
    with r assms have "r' = r"
      by (metis distinct_map inj_onD)
    with r' r show "k \<in> {k. \<exists>r. find (\<lambda>r. user_id r = k) t = Some r \<and> P r}" by blast
  qed
  moreover from assms have "distinct (map user_id (filter P t))"
    by (simp add: distinct_map_filter)
  ultimately show ?thesis
    by (simp add: distinct_card del: set_map)
qed

text \<open>
  C5: on a table that respects its primary key, \<open>deleteExpired\<close> at clock value \<open>now\<close>
  leaves exactly the rows whose expiry is later than \<open>now\<close>, each as it was (so \<open>get\<close>
  finds a key afterwards exactly when it found it before with an expiry later than
  \<open>now\<close>, and returns the same row), the number it returns is the number of keys it
  removed, and a second run at the same clock value removes nothing (at a later clock
  value, the rows that expired in between).
\<close>

theorem deleteExpired_removes_exactly_expired:
  assumes "primary_key t"
  shows "set (snd (tokenStore_deleteExpired now t)) = {r \<in> set t. now < expiry r} \<and>
         (\<forall>k. tokenStore_get (snd (tokenStore_deleteExpired now t)) k
               = (case tokenStore_get t k of
                    None \<Rightarrow> None
                  | Some r \<Rightarrow> if expiry r \<le> now then None else Some r)) \<and>
         fst (tokenStore_deleteExpired now t)
           = card {k. \<exists>r. tokenStore_get t k = Some r \<and> expiry r \<le> now} \<and>
         fst (tokenStore_deleteExpired now t) + tokenStore_count (snd (tokenStore_deleteExpired now t))
           = tokenStore_count t \<and>
         primary_key (snd (tokenStore_deleteExpired now t)) \<and>
         tokenStore_deleteExpired now (snd (tokenStore_deleteExpired now t))
           = (0, snd (tokenStore_deleteExpired now t)) \<and>
         (\<forall>later\<ge>now. fst (tokenStore_deleteExpired later (snd (tokenStore_deleteExpired now t)))
                        = length (filter (\<lambda>r. now < expiry r \<and> expiry r \<le> later) t))"
proof -
  from assms have d: "distinct (map user_id t)"
    by (simp add: primary_key_def)
  have 1: "set (snd (tokenStore_deleteExpired now t)) = {r \<in> set t. now < expiry r}"
    by (auto simp: tokenStore_deleteExpired_def)
  have 2: "tokenStore_get (snd (tokenStore_deleteExpired now t)) k
               = (case tokenStore_get t k of
                    None \<Rightarrow> None
                  | Some r \<Rightarrow> if expiry r \<le> now then None else Some r)" for k
    unfolding tokenStore_deleteExpired_def tokenStore_get_def snd_conv
    by (subst get_filter_primary_key [OF d]) (simp split: option.splits)
  have 3: "fst (tokenStore_deleteExpired now t)
           = card {k. \<exists>r. tokenStore_get t k = Some r \<and> expiry r \<le> now}"
    unfolding tokenStore_deleteExpired_def tokenStore_get_def fst_conv
    by (rule expired_keys_card [OF d, symmetric])
  have 4: "fst (tokenStore_deleteExpired now t) + tokenStore_count (snd (tokenStore_deleteExpired now t))
           = tokenStore_count t"
    unfolding tokenStore_deleteExpired_def tokenStore_count_def fst_conv snd_conv
    using sum_length_filter_compl [of "\<lambda>r. expiry r \<le> now" t] by simp
  have 5: "primary_key (snd (tokenStore_deleteExpired now t))"
    using d by (simp add: primary_key_def tokenStore_deleteExpired_def distinct_map_filter)
  have 6: "tokenStore_deleteExpired now (snd (tokenStore_deleteExpired now t))
           = (0, snd (tokenStore_deleteExpired now t))"
    by (simp add: tokenStore_deleteExpired_def)
  have 7: "\<forall>later\<ge>now. fst (tokenStore_deleteExpired later (snd (tokenStore_deleteExpired now t)))
                        = length (filter (\<lambda>r. now < expiry r \<and> expiry r \<le> later) t)"
    by (simp add: tokenStore_deleteExpired_def not_le)
  from 1 2 3 4 5 6 7 show ?thesis
    by blast
qed

theorem deleteExpired_removes_exactly_expired_witness:
  "primary_key
     [\<lparr>user_id = ''a'', access_token = ''A'', refresh_token = None, expiry = 100,
       scopes = None, created_at = 1, updated_at = 1\<rparr>,
      \<lparr>user_id = ''b'', access_token = ''B'', refresh_token = None, expiry = 200,
       scopes = None, created_at = 2, updated_at = 2\<rparr>,
      \<lparr>user_id = ''c'', access_token = ''C'', refresh_token = None, expiry = 300,
       scopes = None, created_at = 3, updated_at = 3\<rparr>] \<and>
   tokenStore_deleteExpired 200
     [\<lparr>user_id = ''a'', access_token = ''A'', refresh_token = None, expiry = 100,
       scopes = None, created_at = 1, updated_at = 1\<rparr>,
      \<lparr>user_id = ''b'', access_token = ''B'', refresh_token = None, expiry = 200,
       scopes = None, created_at = 2, updated_at = 2\<rparr>,
      \<lparr>user_id = ''c'', access_token = ''C'', refresh_token = None, expiry = 300,
       scopes = None, created_at = 3, updated_at = 3\<rparr>]
   = (2, [\<lparr>user_id = ''c'', access_token = ''C'', refresh_token = None, expiry = 300,
           scopes = None, created_at = 3, updated_at = 3\<rparr>]) \<and>
   tokenStore_deleteExpired 200
     [\<lparr>user_id = ''c'', access_token = ''C'', refresh_token = None, expiry = 300,
       scopes = None, created_at = 3, updated_at = 3\<rparr>]
   = (0, [\<lparr>user_id = ''c'', access_token = ''C'', refresh_token = None, expiry = 300,
           scopes = None, created_at = 3, updated_at = 3\<rparr>])"
  using deleteExpired_removes_exactly_expired
    [of "[\<lparr>user_id = ''a'', access_token = ''A'', refresh_token = None, expiry = 100,
           scopes = None, created_at = 1, updated_at = 1\<rparr>,
          \<lparr>user_id = ''b'', access_token = ''B'', refresh_token = None, expiry = 200,
           scopes = None, created_at = 2, updated_at = 2\<rparr>,
          \<lparr>user_id = ''c'', access_token = ''C'', refresh_token = None, expiry = 300,
           scopes = None, created_at = 3, updated_at = 3\<rparr>]" 200]
  by (simp add: primary_key_def tokenStore_deleteExpired_def)

text \<open>
  C6: \<open>getValidToken\<close> at clock value \<open>now\<close> returns a token for a key exactly when the
  store has a row for it whose expiry is more than 60000 ms after \<open>now\<close>, and the token
  is that row's access token. A row that expires at \<open>now + 30000\<close> gives null, a row
  that expires at \<open>now + 120000\<close> gives its access token.
\<close>

theorem getValidToken_skew:
  "(getValidToken t now k = Some tok
      \<longleftrightarrow> (\<exists>r. tokenStore_get t k = Some r \<and> now + 60000 < expiry r \<and> tok = access_token r)) \<and>
   (getValidToken t now k = None
      \<longleftrightarrow> (\<forall>r. tokenStore_get t k = Some r \<longrightarrow> expiry r \<le> now + 60000)) \<and>
   (\<forall>r. tokenStore_get t k = Some r \<and> expiry r = now + 30000 \<longrightarrow> getValidToken t now k = None) \<and>
   (\<forall>r. tokenStore_get t k = Some r \<and> expiry r = now + 120000
          \<longrightarrow> getValidToken t now k = Some (access_token r))"
  by (auto simp: getValidToken_def skewMs_def split: option.splits)

theorem getValidToken_skew_witness:
  "tokenStore_get
     [\<lparr>user_id = ''a'', access_token = ''A'', refresh_token = None, expiry = 31000,
       scopes = None, created_at = 1, updated_at = 1\<rparr>,
      \<lparr>user_id = ''b'', access_token = ''B'', refresh_token = None, expiry = 121000,
       scopes = None, created_at = 2, updated_at = 2\<rparr>] ''b''
   = Some \<lparr>user_id = ''b'', access_token = ''B'', refresh_token = None, expiry = 121000,
            scopes = None, created_at = 2, updated_at = 2\<rparr> \<and>
   getValidToken
     [\<lparr>user_id = ''a'', access_token = ''A'', refresh_token = None, expiry = 31000,
       scopes = None, created_at = 1, updated_at = 1\<rparr>,
      \<lparr>user_id = ''b'', access_token = ''B'', refresh_token = None, expiry = 121000,
       scopes = None, created_at = 2, updated_at = 2\<rparr>] 1000 ''b'' = Some ''B'' \<and>
   getValidToken
     [\<lparr>user_id = ''a'', access_token = ''A'', refresh_token = None, expiry = 31000,
       scopes = None, created_at = 1, updated_at = 1\<rparr>,
      \<lparr>user_id = ''b'', access_token = ''B'', refresh_token = None, expiry = 121000,
       scopes = None, created_at = 2, updated_at = 2\<rparr>] 1000 ''a'' = None"
  using getValidToken_skew
    [of "[\<lparr>user_id = ''a'', access_token = ''A'', refresh_token = None, expiry = 31000,
           scopes = None, created_at = 1, updated_at = 1\<rparr>,
          \<lparr>user_id = ''b'', access_token = ''B'', refresh_token = None, expiry = 121000,
           scopes = None, created_at = 2, updated_at = 2\<rparr>]" 1000 "''b''" "''B''"]
    getValidToken_skew
    [of "[\<lparr>user_id = ''a'', access_token = ''A'', refresh_token = None, expiry = 31000,
           scopes = None, created_at = 1, updated_at = 1\<rparr>,
          \<lparr>user_id = ''b'', access_token = ''B'', refresh_token = None, expiry = 121000,
           scopes = None, created_at = 2, updated_at = 2\<rparr>]" 1000 "''a''" "''A''"]
  by (simp add: tokenStore_get_def)

section \<open>Properties of the authorization callback\<close>

text \<open>
  C8, as amended: whatever the callback receives, (1) with an \<open>error\<close> parameter that is
  not empty it has no effect at all: no POST, no \<open>set\<close>, the table as it was; (2) when
  the POST to the token endpoint fails, \<open>set\<close> is not called and the table is as it
  was; (3) the table changes only through the one call of \<open>set\<close>, under the key
  \<open>state\<close>; (4) with a \<open>format\<close> parameter that is a string or missing, every reply other
  than a login leaves the table as it was; (5) when \<open>set\<close> is called, it is called once,
  after the POST, which succeeded, with the value of \<open>state\<close>, the response's access
  token and the expiry \<open>now + expires_in * 1000\<close>; (6) a login reply means that this call
  of \<open>set\<close> produced the table.
\<close>

theorem callback_store_untouched_on_failure:
  assumes "auth_callback SCOPES now ts post q t = (reply, t', fx)"
  shows "(q_truthy (q_error q) \<longrightarrow> t' = t \<and> fx = []) \<and>
         ((\<exists>p. post = PostFailed p) \<longrightarrow> t' = t \<and> (\<forall>u f. StoreSet u f \<notin> set fx)) \<and>
         (t' = t \<or>
          (\<exists>uid f. q_state q = Some (QString uid) \<and> fx = [PostToken, StoreSet (QString uid) f] \<and>
                   tokenStore_set t uid f ts = Inr t')) \<and>
         (\<not> logged_in reply \<and> plain_format q \<longrightarrow> t' = t) \<and>
         (\<forall>u f. StoreSet u f \<in> set fx \<longrightarrow>
            (\<exists>tr. post = TokenResp tr \<and> fx = [PostToken, StoreSet u f] \<and>
                  q_state q = Some u \<and> \<not> q_truthy (q_error q) \<and>
                  new_access_token f = tr_access_token tr \<and>
                  new_expiry f = map_option (\<lambda>e. now + e * 1000) (tr_expires_in tr))) \<and>
         (logged_in reply \<longrightarrow>
            (\<exists>uid f. q_state q = Some (QString uid) \<and> fx = [PostToken, StoreSet (QString uid) f] \<and>
                     tokenStore_set t uid f ts = Inr t'))"
proof (cases "q_truthy (q_error q)")
  case True
  with assms show ?thesis
    by (auto simp: auth_callback_def)
next
  case noerr: False
  show ?thesis
  proof (cases "q_state q")
    case None
    with noerr assms show ?thesis
      by (auto simp: auth_callback_def)
  next
    case (Some state)
    show ?thesis
    proof (cases "q_truthy (q_code q) \<and> q_truthy (Some state)")
      case False
      with noerr Some assms show ?thesis
        by (auto simp: auth_callback_def)
    next
      case True
      show ?thesis
      proof (cases post)
        case (PostFailed p)
        with noerr Some True assms show ?thesis
          by (auto simp: auth_callback_def)
      next
        case (TokenResp tr)
        show ?thesis
        proof (cases state)
          case (QOther v)
          with noerr Some True TokenResp assms show ?thesis
            by (auto simp: auth_callback_def Let_def)
        next
          case (QString uid)
          with noerr Some True TokenResp assms show ?thesis
            by (auto simp: auth_callback_def Let_def plain_format_def
                split: sum.splits option.splits qparam.splits if_splits)
        qed
      qed
    qed
  qed
qed

theorem callback_store_untouched_on_failure_witness:
  "auth_callback ''Mail.ReadWrite'' 1000 1001
     (TokenResp \<lparr>tr_access_token = Some ''AT'', tr_refresh_token = None,
                 tr_expires_in = Some 3600\<rparr>)
     \<lparr>q_code = Some (QString ''c''), q_state = Some (QString ''u''),
      q_error = Some (QString ''access_denied''),
      q_error_description = None, q_format = None\<rparr> []
   = (Send400 ''OAuth error: access_denied - undefined'', [], []) \<and>
   auth_callback ''Mail.ReadWrite'' 1000 1001 (PostFailed ''invalid_grant'')
     \<lparr>q_code = Some (QString ''c''), q_state = Some (QString ''u''), q_error = None,
      q_error_description = None, q_format = None\<rparr> []
   = (Json400 (Provider ''invalid_grant''), [], [PostToken]) \<and>
   auth_callback ''Mail.ReadWrite'' 1000 1001
     (TokenResp \<lparr>tr_access_token = Some ''AT'', tr_refresh_token = None,
                 tr_expires_in = Some 3600\<rparr>)
     \<lparr>q_code = Some (QString ''c''), q_state = Some (QString ''u''), q_error = None,
      q_error_description = None, q_format = Some (QString ''JSON'')\<rparr> []
   = (LoggedInJson ''u'' (Some 3600),
      [\<lparr>user_id = ''u'', access_token = ''AT'', refresh_token = None, expiry = 3601000,
        scopes = Some ''Mail.ReadWrite'', created_at = 1001, updated_at = 1001\<rparr>],
      [PostToken,
       StoreSet (QString ''u'')
         \<lparr>new_access_token = Some ''AT'', new_refresh_token = None,
          new_expiry = Some 3601000, new_scopes = Some ''Mail.ReadWrite''\<rparr>])"
  using callback_store_untouched_on_failure
    [of "''Mail.ReadWrite''" 1000 1001
        "TokenResp \<lparr>tr_access_token = Some ''AT'', tr_refresh_token = None,
                    tr_expires_in = Some 3600\<rparr>"
        "\<lparr>q_code = Some (QString ''c''), q_state = Some (QString ''u''), q_error = None,
          q_error_description = None, q_format = Some (QString ''JSON'')\<rparr>" "[]"
        "LoggedInJson ''u'' (Some 3600)"
        "[\<lparr>user_id = ''u'', access_token = ''AT'', refresh_token = None, expiry = 3601000,
           scopes = Some ''Mail.ReadWrite'', created_at = 1001, updated_at = 1001\<rparr>]"
        "[PostToken,
          StoreSet (QString ''u'')
            \<lparr>new_access_token = Some ''AT'', new_refresh_token = None,
             new_expiry = Some 3601000, new_scopes = Some ''Mail.ReadWrite''\<rparr>]"]
  by (simp add: auth_callback_def q_truthy_def js_truthy_def template_def toLowerCase_def
        lower_char_def tokenStore_set_def upsertStmt_def Let_def)

text \<open>
  The claim as it was stated, for every error parameter and every reply that is not a
  login: with an \<open>error\<close> parameter that is present and empty the handler goes on to
  \<open>set\<close>; and with a \<open>format\<close> parameter given twice the handler replies 400 from its
  catch block after \<open>set\<close> has written the row.
\<close>

theorem callback_store_changed_counterexample:
  "auth_callback ''Mail.ReadWrite'' 1000 1001
     (TokenResp \<lparr>tr_access_token = Some ''AT'', tr_refresh_token = None,
                 tr_expires_in = Some 3600\<rparr>)
     \<lparr>q_code = Some (QString ''c''), q_state = Some (QString ''u''),
      q_error = Some (QString ''''),
      q_error_description = None, q_format = Some (QString ''json'')\<rparr> []
   = (LoggedInJson ''u'' (Some 3600),
      [\<lparr>user_id = ''u'', access_token = ''AT'', refresh_token = None, expiry = 3601000,
        scopes = Some ''Mail.ReadWrite'', created_at = 1001, updated_at = 1001\<rparr>],
      [PostToken,
       StoreSet (QString ''u'')
         \<lparr>new_access_token = Some ''AT'', new_refresh_token = None,
          new_expiry = Some 3601000, new_scopes = Some ''Mail.ReadWrite''\<rparr>]) \<and>
   auth_callback ''Mail.ReadWrite'' 1000 1001
     (TokenResp \<lparr>tr_access_token = Some ''AT'', tr_refresh_token = None,
                 tr_expires_in = Some 3600\<rparr>)
     \<lparr>q_code = Some (QString ''c''), q_state = Some (QString ''u''), q_error = None,
      q_error_description = None, q_format = Some (QOther ''json,html'')\<rparr> []
   = (Json400 NotAFunction,
      [\<lparr>user_id = ''u'', access_token = ''AT'', refresh_token = None, expiry = 3601000,
        scopes = Some ''Mail.ReadWrite'', created_at = 1001, updated_at = 1001\<rparr>],
      [PostToken,
       StoreSet (QString ''u'')
         \<lparr>new_access_token = Some ''AT'', new_refresh_token = None,
          new_expiry = Some 3601000, new_scopes = Some ''Mail.ReadWrite''\<rparr>])"
  by (simp add: auth_callback_def q_truthy_def js_truthy_def template_def toLowerCase_def
        lower_char_def tokenStore_set_def upsertStmt_def Let_def)

section \<open>Properties of the tool endpoint\<close>

lemma class_match_chars: "class_match k c \<Longrightarrow> c \<in> set ''0123456789abcdefABCDEF-''"
  by (cases k) auto

lemma UUID_chars:
  assumes "UUID_RE_test s" and "c \<in> set s"
  shows "c \<in> set ''0123456789abcdefABCDEF-''"
proof -
  from assms(2) obtain i where i: "i < length s" "s ! i = c"
    by (auto simp: in_set_conv_nth)
  with assms(1) have "class_match (UUID_RE ! i) c"
    unfolding UUID_RE_test_def by (auto dest: list_all2_nthD2)
  then show ?thesis
    by (rule class_match_chars)
qed

lemma UUID_length: "UUID_RE_test s \<Longrightarrow> length s = 36"
  unfolding UUID_RE_test_def UUID_RE_def by (auto dest!: list_all2_lengthD)

lemma trim_no_space:
  assumes "\<And>c. c \<in> set s \<Longrightarrow> \<not> is_space c"
  shows "trim s = s"
proof -
  have "dropWhile is_space xs = xs" if "\<And>c. c \<in> set xs \<Longrightarrow> \<not> is_space c" for xs
    using that by (cases xs) auto
  from this [of s] this [of "rev s"] assms show ?thesis
    by (simp add: trim_def)
qed

lemma encodeURIComponent_unreserved:
  "(\<And>c. c \<in> set s \<Longrightarrow> unreserved c) \<Longrightarrow> encodeURIComponent s = s"
  by (induction s) (simp_all add: encodeURIComponent_def)

lemma UUID_trim: "UUID_RE_test s \<Longrightarrow> trim s = s"
  by (rule trim_no_space) (auto dest!: UUID_chars simp: is_space_def)

lemma UUID_encode: "UUID_RE_test s \<Longrightarrow> encodeURIComponent s = s"
  by (rule encodeURIComponent_unreserved) (auto dest!: UUID_chars simp: unreserved_def)

lemma UUID_not_bad: "UUID_RE_test s \<Longrightarrow> toLowerCase s \<notin> set BAD_TOKENS"
  by (auto dest!: UUID_length arg_cong [where f = length] simp: BAD_TOKENS_def toLowerCase_def)

text \<open>
  C9: for every tool invocation (one that has passed the API key check of step 1) with
  a key \<open>uid\<close> of the UUID form (with or without white space around it) for which
  \<open>getValidToken\<close> finds no token, the handler replies with status 200 and the object of
  \<open>requires_login: true\<close>, the same \<open>uid\<close> and the login URL of \<open>uid\<close>; the object has no
  \<open>error\<close> key.
\<close>

theorem no_token_requires_login_same_user_id:
  assumes "API_KEY \<noteq> []"
      and "authorization req = Some (''Bearer '' @ API_KEY)"
      and "body_user_id req = Some raw" and "trim raw = uid" and "UUID_RE_test uid"
      and "getValidToken t now uid = None"
  shows "execute_tool API_KEY BASE_URL minted now t req =
           Respond \<lparr>res_status = 200,
                    res_json = [(''requires_login'', JBool True),
                                (''user_id'', JStr uid),
                                (''login_url'', JStr (BASE_URL @ ''/login?user_id='' @ uid))]\<rparr> \<and>
         map_of [(''requires_login'', JBool True), (''user_id'', JStr uid),
                 (''login_url'', JStr (BASE_URL @ ''/login?user_id='' @ uid))] ''error'' = None \<and>
         (UUID_RE_test raw \<longrightarrow> uid = raw)"
proof -
  from assms(5) have u: "uid \<noteq> []"
    by (auto dest: UUID_length)
  from assms(1,2) have key: "startsWith (or_empty (authorization req)) ''Bearer ''"
    "drop 7 (or_empty (authorization req)) = API_KEY"
    by (simp_all add: startsWith_def or_empty_def)
  from key assms(1) u assms(3-6) UUID_not_bad [OF assms(5)] UUID_encode [OF assms(5)]
  have "execute_tool API_KEY BASE_URL minted now t req =
           Respond \<lparr>res_status = 200,
                    res_json = [(''requires_login'', JBool True),
                                (''user_id'', JStr uid),
                                (''login_url'', JStr (BASE_URL @ ''/login?user_id='' @ uid))]\<rparr>"
    by (simp add: execute_tool_def Let_def js_truthy_def or_empty_def)
  moreover have "UUID_RE_test raw \<longrightarrow> uid = raw"
    using assms(4) by (auto dest: UUID_trim)
  ultimately show ?thesis
    by simp
qed

theorem no_token_requires_login_same_user_id_witness:
  "UUID_RE_test ''123e4567-e89b-42d3-a456-426614174000'' \<and>
   getValidToken [] 0 ''123e4567-e89b-42d3-a456-426614174000'' = None \<and>
   execute_tool ''CROWDdoingtools'' ''http://localhost:3001''
       ''0b1f6c7a-5d1e-4c3a-9f0e-2a7b8c9d0e1f'' 0 []
       \<lparr>authorization = Some ''Bearer CROWDdoingtools'',
        body_user_id = Some ''123e4567-e89b-42d3-a456-426614174000''\<rparr>
   = Respond \<lparr>res_status = 200,
              res_json =
                [(''requires_login'', JBool True),
                 (''user_id'', JStr ''123e4567-e89b-42d3-a456-426614174000''),
                 (''login_url'',
                  JStr ''http://localhost:3001/login?user_id=123e4567-e89b-42d3-a456-426614174000'')]\<rparr>"
proof -
  have u: "UUID_RE_test ''123e4567-e89b-42d3-a456-426614174000''"
    by (simp add: UUID_RE_test_def UUID_RE_def eval_nat_numeral)
  have g: "getValidToken [] 0 ''123e4567-e89b-42d3-a456-426614174000'' = None"
    by (simp add: getValidToken_def tokenStore_get_def)
  have tr: "trim ''123e4567-e89b-42d3-a456-426614174000'' = ''123e4567-e89b-42d3-a456-426614174000''"
    by (simp add: trim_def is_space_def)
  from no_token_requires_login_same_user_id
    [of "''CROWDdoingtools''"
        "\<lparr>authorization = Some ''Bearer CROWDdoingtools'',
          body_user_id = Some ''123e4567-e89b-42d3-a456-426614174000''\<rparr>"
        "''123e4567-e89b-42d3-a456-426614174000''" "''123e4567-e89b-42d3-a456-426614174000''"
        "[]" 0 "''http://localhost:3001''" "''0b1f6c7a-5d1e-4c3a-9f0e-2a7b8c9d0e1f''",
     OF _ _ _ tr u g] u g
  show ?thesis
    by simp
qed

text \<open>
  Step 1 comes before the key is read: a request without the API key is answered by the
  401 of that step, whatever key it carries.
\<close>

lemma execute_tool_without_api_key:
  "UUID_RE_test ''123e4567-e89b-42d3-a456-426614174000'' \<and>
   getValidToken [] 0 ''123e4567-e89b-42d3-a456-426614174000'' = None \<and>
   execute_tool ''CROWDdoingtools'' ''http://localhost:3001''
       ''0b1f6c7a-5d1e-4c3a-9f0e-2a7b8c9d0e1f'' 0 []
       \<lparr>authorization = None,
        body_user_id = Some ''123e4567-e89b-42d3-a456-426614174000''\<rparr>
   = Respond \<lparr>res_status = 401,
              res_json =
                [(''error'', JStr ''Invalid API key''),
                 (''requires_login'', JBool True),
                 (''login_url'', JStr ''http://localhost:3001/login?user_id=temp'')]\<rparr>"
  by (simp add: UUID_RE_test_def UUID_RE_def eval_nat_numeral getValidToken_def
        tokenStore_get_def execute_tool_def or_empty_def startsWith_def js_truthy_def)

section \<open>Properties of GET with backoff\<close>

lemma transient_retryable: "transient e = retryable (err_status e)"
  by (simp add: transient_def retryable_def)

text \<open>
  While the remote side rejects with transient errors and retries are left, the loop
  goes on: it has issued these GETs and waited these delays.
\<close>

lemma httpGetWithBackoff_loop_rejects:
  assumes "rejects net (length (requests w)) url es" and "a + length es \<le> m"
  shows "httpGetWithBackoff_loop net url m a w
         = httpGetWithBackoff_loop net url m (a + length es)
             (w\<lparr>requests := requests w @ replicate (length es) url,
                sleeps := sleeps w @ delays a es\<rparr>)"
  using assms
proof (induction es arbitrary: a w)
  case Nil
  show ?case by simp
next
  case (Cons e es)
  let ?w2 = "w\<lparr>requests := requests w @ [url],
               sleeps := sleeps w @ [times_1000 (retryAfter e a)]\<rparr>"
  from Cons.prems have e: "net (length (requests w)) url = Rejected e"
    and tr: "retryable (err_status e)" and rest: "rejects net (length (requests ?w2)) url es"
    and a: "a < m" and le: "(a + 1) + length es \<le> m"
    by (simp_all add: transient_retryable)
  have "httpGetWithBackoff_loop net url m a w = httpGetWithBackoff_loop net url m (a + 1) ?w2"
    using e tr a by (subst httpGetWithBackoff_loop.simps) simp
  also have "\<dots> = httpGetWithBackoff_loop net url m ((a + 1) + length es)
             (?w2\<lparr>requests := requests ?w2 @ replicate (length es) url,
                  sleeps := sleeps ?w2 @ delays (a + 1) es\<rparr>)"
    by (rule Cons.IH [OF rest le])
  finally show ?case
    by (simp add: replicate_append_same)
qed

text \<open>After \<open>es\<close> the GET succeeds: the loop returns its page.\<close>

lemma httpGetWithBackoff_succeeds:
  assumes "rejects net (length (requests w)) url es" and "length es \<le> m"
    and "net (length (requests w) + length es) url = Resolved p"
  shows "httpGetWithBackoff net url m w
         = (Inr p, w\<lparr>requests := requests w @ replicate (Suc (length es)) url,
                      sleeps := sleeps w @ delays 0 es\<rparr>)"
proof -
  let ?w2 = "w\<lparr>requests := requests w @ replicate (length es) url,
               sleeps := sleeps w @ delays 0 es\<rparr>"
  have "httpGetWithBackoff net url m w = httpGetWithBackoff_loop net url m (length es) ?w2"
    unfolding httpGetWithBackoff_def
    using httpGetWithBackoff_loop_rejects [OF assms(1), of 0 m] assms(2) by simp
  also have "\<dots> = (Inr p, ?w2\<lparr>requests := requests ?w2 @ [url]\<rparr>)"
    using assms(3) by (subst httpGetWithBackoff_loop.simps) simp
  finally show ?thesis
    by (simp add: replicate_append_same)
qed

text \<open>
  After \<open>es\<close> the GET is rejected with an error that is not transient, or with any error
  when \<open>es\<close> used up the retries: the loop throws that error.
\<close>

lemma httpGetWithBackoff_throws:
  assumes "rejects net (length (requests w)) url es" and "length es \<le> m"
    and "net (length (requests w) + length es) url = Rejected e"
    and "\<not> transient e \<or> length es = m"
  shows "httpGetWithBackoff net url m w
         = (Inl e, w\<lparr>requests := requests w @ replicate (Suc (length es)) url,
                      sleeps := sleeps w @ delays 0 es\<rparr>)"
proof -
  let ?w2 = "w\<lparr>requests := requests w @ replicate (length es) url,
               sleeps := sleeps w @ delays 0 es\<rparr>"
  have "httpGetWithBackoff net url m w = httpGetWithBackoff_loop net url m (length es) ?w2"
    unfolding httpGetWithBackoff_def
    using httpGetWithBackoff_loop_rejects [OF assms(1), of 0 m] assms(2) by simp
  also have "\<dots> = (Inl e, ?w2\<lparr>requests := requests ?w2 @ [url]\<rparr>)"
    using assms(3,4) by (subst httpGetWithBackoff_loop.simps) (auto simp: transient_retryable)
  finally show ?thesis
    by (simp add: replicate_append_same)
qed

text \<open>
  One run of the loop, whatever the remote side does: it was rejected with transient
  errors \<open>es\<close> while retries were left, and the GET after them decides the result.
\<close>

lemma httpGetWithBackoff_loop_run:
  assumes "httpGetWithBackoff_loop net url m a w = (r, w')"
  shows "\<exists>es. (es = [] \<or> a + length es \<le> m) \<and>
           rejects net (length (requests w)) url es \<and>
           w' = w\<lparr>requests := requests w @ replicate (Suc (length es)) url,
                  sleeps := sleeps w @ delays a es\<rparr> \<and>
           (case r of
              Inr p \<Rightarrow> net (length (requests w) + length es) url = Resolved p
            | Inl e \<Rightarrow> net (length (requests w) + length es) url = Rejected e \<and>
                       (\<not> transient e \<or> \<not> a + length es < m))"
  using assms
proof (induction net url m a w arbitrary: r w' rule: httpGetWithBackoff_loop.induct)
  case (1 net url m a w)
  let ?L = "length (requests w)"
  show ?case
  proof (cases "net ?L url")
    case (Resolved p)
    with "1.prems" have "r = Inr p" and "w' = w\<lparr>requests := requests w @ [url]\<rparr>"
      by (simp_all add: httpGetWithBackoff_loop.simps [of net url m a w])
    with Resolved show ?thesis
      by (intro exI [of _ "[]"]) simp
  next
    case (Rejected e)
    show ?thesis
    proof (cases "retryable (err_status e) \<and> a < m")
      case False
      with Rejected "1.prems" have "r = Inl e" and "w' = w\<lparr>requests := requests w @ [url]\<rparr>"
        by (auto simp: httpGetWithBackoff_loop.simps [of net url m a w])
      with Rejected False show ?thesis
        by (intro exI [of _ "[]"]) (auto simp: transient_retryable)
    next
      case True
      let ?w2 = "w\<lparr>requests := requests w @ [url],
                   sleeps := sleeps w @ [times_1000 (retryAfter e a)]\<rparr>"
      from True Rejected "1.prems"
      have run: "httpGetWithBackoff_loop net url m (a + 1) ?w2 = (r, w')"
        by (simp add: httpGetWithBackoff_loop.simps [of net url m a w])
      from "1.IH" [OF Rejected True run] obtain es where
        bound: "es = [] \<or> a + 1 + length es \<le> m"
        and rej: "rejects net (length (requests ?w2)) url es"
        and w': "w' = ?w2\<lparr>requests := requests ?w2 @ replicate (Suc (length es)) url,
                          sleeps := sleeps ?w2 @ delays (a + 1) es\<rparr>"
        and fin: "(case r of
              Inr p \<Rightarrow> net (length (requests ?w2) + length es) url = Resolved p
            | Inl e \<Rightarrow> net (length (requests ?w2) + length es) url = Rejected e \<and>
                       (\<not> transient e \<or> \<not> a + 1 + length es < m))"
        by blast
      have b': "e # es = [] \<or> a + length (e # es) \<le> m"
        using bound True by auto
      have rej': "rejects net ?L url (e # es)"
        using rej Rejected True by (simp add: transient_retryable)
      have w'': "w' = w\<lparr>requests := requests w @ replicate (Suc (length (e # es))) url,
                         sleeps := sleeps w @ delays a (e # es)\<rparr>"
        using w' by (simp add: replicate_append_same)
      have fin': "(case r of
              Inr p \<Rightarrow> net (?L + length (e # es)) url = Resolved p
            | Inl e' \<Rightarrow> net (?L + length (e # es)) url = Rejected e' \<and>
                       (\<not> transient e' \<or> \<not> a + length (e # es) < m))"
        using fin by (simp split: sum.splits)
      from b' rej' w'' fin' show ?thesis
        by (intro exI [of _ "e # es"]) blast
    qed
  qed
qed

lemma rejects_nth:
  "rejects net c url es \<Longrightarrow> i < length es \<Longrightarrow>
     net (c + i) url = Rejected (es ! i) \<and> transient (es ! i)"
proof (induction es arbitrary: c i)
  case Nil
  then show ?case by simp
next
  case (Cons e es)
  show ?case
  proof (cases i)
    case 0
    with Cons.prems show ?thesis by simp
  next
    case (Suc j)
    with Cons.prems have "rejects net (Suc c) url es" and "j < length es" by simp_all
    from Cons.IH [OF this] Suc show ?thesis by simp
  qed
qed

lemma length_delays: "length (delays a es) = length es"
  by (induction es arbitrary: a) simp_all

text \<open>
  C2: for every remote side and every \<open>maxRetries = m\<close> (4 by default), a call of
  \<open>httpGetWithBackoff\<close> is rejected with transient errors \<open>es\<close> (status 429 or from 500 on),
  at most \<open>m\<close> of them, issues one GET more than that and waits once after each of
  them; its result is that of the last GET: the page when it succeeds, and its error,
  unchanged, when that is not transient or when \<open>m\<close> retries were used up. So: (2) an
  error of the first GET whose status is below 500 and not 429 (or is absent) is thrown
  after one GET and no wait; (3) the same after any \<open>es\<close>: an error that is not transient
  is thrown by the GET that meets it, with no further GET and no further wait; (4) a
  page that comes after \<open>es\<close> is returned; (5) when the first \<open>m + 1\<close> GETs are all
  rejected with transient errors, the error of GET \<open>m + 1\<close> is thrown after exactly
  \<open>m + 1\<close> GETs and \<open>m\<close> waits.
\<close>

theorem httpGetWithBackoff_retry_policy:
  assumes "httpGetWithBackoff net url m w = (r, w')"
  shows "(\<exists>es. length es \<le> m \<and> rejects net (length (requests w)) url es \<and>
               w' = w\<lparr>requests := requests w @ replicate (Suc (length es)) url,
                      sleeps := sleeps w @ delays 0 es\<rparr> \<and>
               (\<forall>i<length es. \<exists>s. err_status (es ! i) = Some s \<and> (s = 429 \<or> 500 \<le> s)) \<and>
               (case r of
                  Inr p \<Rightarrow> net (length (requests w) + length es) url = Resolved p
                | Inl e \<Rightarrow> net (length (requests w) + length es) url = Rejected e \<and>
                           (err_status e = None \<or>
                            (\<exists>s. err_status e = Some s \<and> s \<noteq> 429 \<and> s < 500) \<or>
                            length es = m))) \<and>
         (\<forall>e. net (length (requests w)) url = Rejected e \<and>
               (err_status e = None \<or> (\<exists>s. err_status e = Some s \<and> s \<noteq> 429 \<and> s < 500))
               \<longrightarrow> r = Inl e \<and> w' = w\<lparr>requests := requests w @ [url]\<rparr>) \<and>
         (\<forall>es e. length es \<le> m \<and> rejects net (length (requests w)) url es \<and>
               net (length (requests w) + length es) url = Rejected e \<and>
               (err_status e = None \<or> (\<exists>s. err_status e = Some s \<and> s \<noteq> 429 \<and> s < 500))
               \<longrightarrow> r = Inl e \<and>
                   w' = w\<lparr>requests := requests w @ replicate (Suc (length es)) url,
                          sleeps := sleeps w @ delays 0 es\<rparr>) \<and>
         (\<forall>es p. length es \<le> m \<and> rejects net (length (requests w)) url es \<and>
               net (length (requests w) + length es) url = Resolved p
               \<longrightarrow> r = Inr p \<and>
                   w' = w\<lparr>requests := requests w @ replicate (Suc (length es)) url,
                          sleeps := sleeps w @ delays 0 es\<rparr>) \<and>
         ((\<forall>i\<le>m. \<exists>e. net (length (requests w) + i) url = Rejected e \<and> retryable (err_status e))
            \<longrightarrow> (\<exists>e. net (length (requests w) + m) url = Rejected e \<and> r = Inl e) \<and>
                requests w' = requests w @ replicate (Suc m) url \<and>
                length (sleeps w') = length (sleeps w) + m)"
proof -
  let ?L = "length (requests w)"
  have nt: "\<not> transient e \<longleftrightarrow>
              err_status e = None \<or> (\<exists>s. err_status e = Some s \<and> s \<noteq> 429 \<and> s < 500)" for e
    by (cases "err_status e") (auto simp: transient_def)
  from httpGetWithBackoff_loop_run [OF assms [unfolded httpGetWithBackoff_def]]
  obtain es where
    bound: "es = [] \<or> length es \<le> m"
    and rej: "rejects net ?L url es"
    and w': "w' = w\<lparr>requests := requests w @ replicate (Suc (length es)) url,
                     sleeps := sleeps w @ delays 0 es\<rparr>"
    and fin: "(case r of
          Inr p \<Rightarrow> net (?L + length es) url = Resolved p
        | Inl e \<Rightarrow> net (?L + length es) url = Rejected e \<and>
                   (\<not> transient e \<or> \<not> 0 + length es < m))"
    by auto
  from bound have nm: "length es \<le> m" by auto
  have each: "\<forall>i<length es. \<exists>s. err_status (es ! i) = Some s \<and> (s = 429 \<or> 500 \<le> s)"
  proof (intro allI impI)
    fix i assume "i < length es"
    with rejects_nth [OF rej] have "transient (es ! i)" by simp
    then show "\<exists>s. err_status (es ! i) = Some s \<and> (s = 429 \<or> 500 \<le> s)"
      by (cases "err_status (es ! i)") (auto simp: transient_def)
  qed
  have fin': "(case r of
                  Inr p \<Rightarrow> net (?L + length es) url = Resolved p
                | Inl e \<Rightarrow> net (?L + length es) url = Rejected e \<and>
                           (err_status e = None \<or>
                            (\<exists>s. err_status e = Some s \<and> s \<noteq> 429 \<and> s < 500) \<or>
                            length es = m))"
    using fin nm nt by (auto split: sum.splits)
  have A: "\<exists>es. length es \<le> m \<and> rejects net ?L url es \<and>
               w' = w\<lparr>requests := requests w @ replicate (Suc (length es)) url,
                      sleeps := sleeps w @ delays 0 es\<rparr> \<and>
               (\<forall>i<length es. \<exists>s. err_status (es ! i) = Some s \<and> (s = 429 \<or> 500 \<le> s)) \<and>
               (case r of
                  Inr p \<Rightarrow> net (?L + length es) url = Resolved p
                | Inl e \<Rightarrow> net (?L + length es) url = Rejected e \<and>
                           (err_status e = None \<or>
                            (\<exists>s. err_status e = Some s \<and> s \<noteq> 429 \<and> s < 500) \<or>
                            length es = m))"
    using nm rej w' each fin' by blast
  have C: "r = Inl e \<and>
           w' = w\<lparr>requests := requests w @ replicate (Suc (length es)) url,
                  sleeps := sleeps w @ delays 0 es\<rparr>"
    if "length es \<le> m" "rejects net ?L url es" "net (?L + length es) url = Rejected e"
      "err_status e = None \<or> (\<exists>s. err_status e = Some s \<and> s \<noteq> 429 \<and> s < 500)"
    for es e
    using httpGetWithBackoff_throws [OF that(2,1,3), of] that(4) assms nt [of e] by simp
  have B: "\<forall>e. net ?L url = Rejected e \<and>
               (err_status e = None \<or> (\<exists>s. err_status e = Some s \<and> s \<noteq> 429 \<and> s < 500))
               \<longrightarrow> r = Inl e \<and> w' = w\<lparr>requests := requests w @ [url]\<rparr>"
    using C [of "[]"] by simp
  have D: "r = Inr p \<and>
           w' = w\<lparr>requests := requests w @ replicate (Suc (length es)) url,
                  sleeps := sleeps w @ delays 0 es\<rparr>"
    if "length es \<le> m" "rejects net ?L url es" "net (?L + length es) url = Resolved p"
    for es p
    using httpGetWithBackoff_succeeds [OF that(2,1,3)] assms by simp
  have E: "(\<exists>e. net (?L + m) url = Rejected e \<and> r = Inl e) \<and>
           requests w' = requests w @ replicate (Suc m) url \<and>
           length (sleeps w') = length (sleeps w) + m"
    if all: "\<forall>i\<le>m. \<exists>e. net (?L + i) url = Rejected e \<and> retryable (err_status e)"
  proof -
    from all nm obtain e where e: "net (?L + length es) url = Rejected e" "retryable (err_status e)"
      by blast
    with fin have r: "r = Inl e" and "\<not> length es < m"
      by (auto split: sum.splits simp: transient_retryable)
    with nm have "length es = m" by simp
    with e r w' show ?thesis by (simp add: length_delays)
  qed
  from A B C D E show ?thesis
    by blast
qed

theorem httpGetWithBackoff_retry_policy_witness:
  "httpGetWithBackoff
     (\<lambda>n u. Rejected \<lparr>err_status = Some 503, retry_after = None, err_body = ''busy''\<rparr>)
     ''/me/messages'' 4 \<lparr>requests = [], sleeps = []\<rparr>
   = (Inl \<lparr>err_status = Some 503, retry_after = None, err_body = ''busy''\<rparr>,
      \<lparr>requests = [''/me/messages'', ''/me/messages'', ''/me/messages'', ''/me/messages'',
                   ''/me/messages''],
       sleeps = [Num 1000, Num 2000, Num 4000, Num 8000]\<rparr>) \<and>
   httpGetWithBackoff
     (\<lambda>n u. Rejected \<lparr>err_status = Some 404, retry_after = None, err_body = ''gone''\<rparr>)
     ''/me/messages'' 4 \<lparr>requests = [], sleeps = []\<rparr>
   = (Inl \<lparr>err_status = Some 404, retry_after = None, err_body = ''gone''\<rparr>,
      \<lparr>requests = [''/me/messages''], sleeps = []\<rparr>) \<and>
   httpGetWithBackoff
     (\<lambda>n u. if n = 0
             then Rejected \<lparr>err_status = Some 503, retry_after = None, err_body = ''busy''\<rparr>
             else Rejected \<lparr>err_status = Some 404, retry_after = None, err_body = ''gone''\<rparr>)
     ''/me/messages'' 4 \<lparr>requests = [], sleeps = []\<rparr>
   = (Inl \<lparr>err_status = Some 404, retry_after = None, err_body = ''gone''\<rparr>,
      \<lparr>requests = [''/me/messages'', ''/me/messages''], sleeps = [Num 1000]\<rparr>)"
  using httpGetWithBackoff_retry_policy
    [of "\<lambda>n u. Rejected \<lparr>err_status = Some 503, retry_after = None, err_body = ''busy''\<rparr>"
        "''/me/messages''" 4 "\<lparr>requests = [], sleeps = []\<rparr>"
        "Inl \<lparr>err_status = Some 503, retry_after = None, err_body = ''busy''\<rparr>"
        "\<lparr>requests = [''/me/messages'', ''/me/messages'', ''/me/messages'', ''/me/messages'',
                      ''/me/messages''],
          sleeps = [Num 1000, Num 2000, Num 4000, Num 8000]\<rparr>"]
  by (simp add: httpGetWithBackoff_def httpGetWithBackoff_loop.simps retryable_def
        retryAfter_def Number_js_def)

lemma Number_js_examples:
  "Number_js None = NaN"
  "Number_js (Some '''') = Num 0"
  "Number_js (Some ''120'') = Num 120"
  "Number_js (Some '' 3 '') = Num 3"
  "Number_js (Some ''1.5'') = Num (3 / 2)"
  "Number_js (Some ''.5'') = Num (1 / 2)"
  "Number_js (Some ''1e1'') = Num 10"
  "Number_js (Some ''25E-1'') = Num (5 / 2)"
  "Number_js (Some ''+5'') = Num 5"
  "Number_js (Some ''-5'') = Num (- 5)"
  "Number_js (Some ''0x10'') = Num 16"
  "Number_js (Some ''0b101'') = Num 5"
  "Number_js (Some ''-0x10'') = NaN"
  "Number_js (Some ''Infinity'') = PosInf"
  "Number_js (Some ''1.5.2'') = NaN"
  "Number_js (Some ''Wed, 21 Oct 2015 07:28:00 GMT'') = NaN"
  by (simp_all add: Number_js_def trim_def is_space_def is_digit_def decimal_def digit_val_def
        strip_sign_def unsigned_decimal_def exponent_part_def pow10_def prefixed_def
        radix_digit_def Let_def)

lemma retryAfter_header:
  "number_truthy (Number_js (retry_after e)) \<Longrightarrow>
     retryAfter e attempt = Number_js (retry_after e)"
  by (simp add: retryAfter_def)

lemma retryAfter_no_header:
  "retry_after e = None \<Longrightarrow> retryAfter e attempt = Num (of_nat (min (2 ^ attempt) 16))"
  by (simp add: retryAfter_def Number_js_def)

lemma retryAfter_schedule:
  "retry_after e = None \<Longrightarrow>
     map (retryAfter e) [0, 1, 2, 3, 4, 5] = [Num 1, Num 2, Num 4, Num 8, Num 16, Num 16]"
  by (simp add: retryAfter_no_header)

lemma httpGetWithBackoff_spec_scenario:
  "httpGetWithBackoff
     (\<lambda>n u. if n = 0 then Rejected \<lparr>err_status = Some 429, retry_after = Some ''3'',
                                      err_body = ''slow down''\<rparr>
             else if n < 3 then Rejected \<lparr>err_status = Some 500, retry_after = None,
                                           err_body = ''server error''\<rparr>
             else Resolved \<lparr>page_value = Some [''m1'', ''m2''], nextLink = None\<rparr>)
     ''/me/messages'' 4 \<lparr>requests = [], sleeps = []\<rparr>
   = (Inr \<lparr>page_value = Some [''m1'', ''m2''], nextLink = None\<rparr>,
      \<lparr>requests = [''/me/messages'', ''/me/messages'', ''/me/messages'', ''/me/messages''],
       sleeps = [Num 3000, Num 2000, Num 4000]\<rparr>)"
  by (simp add: httpGetWithBackoff_def httpGetWithBackoff_loop.simps retryable_def
        retryAfter_def Number_js_def trim_def is_space_def is_digit_def decimal_def
        digit_val_def strip_sign_def unsigned_decimal_def exponent_part_def pow10_def
        Let_def)

text \<open>
  C1: a response that carries \<open>Retry-After: 0\<close> asks for a wait of 0 seconds. The loop
  reads the header with \<open>Number(...) || ...\<close>, where 0 is falsy, and waits
  \<open>min(2^attempt, 16)\<close> seconds instead: 1000 ms after the first attempt here.
\<close>

theorem httpGetWithBackoff_retry_after_zero:
  "Number_js (Some ''0'') = Num 0 \<and>
   httpGetWithBackoff
     (\<lambda>n u. if n = 0 then Rejected \<lparr>err_status = Some 429, retry_after = Some ''0'',
                                      err_body = ''slow down''\<rparr>
             else Resolved \<lparr>page_value = Some [''m1'', ''m2''], nextLink = None\<rparr>)
     ''/me/messages'' 4 \<lparr>requests = [], sleeps = []\<rparr>
   = (Inr \<lparr>page_value = Some [''m1'', ''m2''], nextLink = None\<rparr>,
      \<lparr>requests = [''/me/messages'', ''/me/messages''], sleeps = [Num 1000]\<rparr>)"
  by (simp add: httpGetWithBackoff_def httpGetWithBackoff_loop.simps retryable_def
        retryAfter_def Number_js_def trim_def is_space_def is_digit_def decimal_def
        digit_val_def strip_sign_def unsigned_decimal_def exponent_part_def pow10_def
        Let_def)

section \<open>Properties of paging\<close>

lemma httpGetWithBackoff_reliable:
  "httpGetWithBackoff (reliable srv) url m w
     = (Inr (srv url), w\<lparr>requests := requests w @ [url]\<rparr>)"
  unfolding httpGetWithBackoff_def
  by (subst httpGetWithBackoff_loop.simps) (simp add: reliable_def)

lemma next_Start_reliable:
  "listCollection_next (reliable srv) (Start url) w
     = listCollection_next (reliable srv)
         (InPage (page_items (srv url)) (nextLink (srv url)))
         (w\<lparr>requests := requests w @ [url]\<rparr>)"
  by (subst listCollection_next.simps) (simp add: httpGetWithBackoff_reliable)

lemma next_InPage_Cons:
  "listCollection_next net (InPage (x # xs) nl) w = Some (Yield x (InPage xs nl), w)"
  by (subst listCollection_next.simps) simp

lemma next_InPage_Nil_end:
  "\<not> js_truthy nl \<Longrightarrow> listCollection_next net (InPage [] nl) w = Some (Return, w)"
  by (subst listCollection_next.simps) simp

lemma next_InPage_Nil_link:
  "js_truthy nl \<Longrightarrow>
     listCollection_next net (InPage [] nl) w = listCollection_next net (Start (or_empty nl)) w"
  by (subst listCollection_next.simps) simp

lemma collect_loop_cong:
  assumes "listCollection_next net g w = listCollection_next net g' w'"
  shows "collect_loop net g out w = collect_loop net g' out w'"
  by (subst collect_loop.simps, subst (2) collect_loop.simps) (simp add: assms)

lemma collect_loop_items:
  "collect_loop net (InPage items nl) out w = collect_loop net (InPage [] nl) (out @ items) w"
proof (induction items arbitrary: out)
  case Nil
  show ?case by simp
next
  case (Cons x xs)
  have "collect_loop net (InPage (x # xs) nl) out w = collect_loop net (InPage xs nl) (out @ [x]) w"
    by (subst collect_loop.simps) (simp add: next_InPage_Cons)
  with Cons [of "out @ [x]"] show ?case by simp
qed

lemma collect_loop_paged:
  assumes "paged srv url ps"
  shows "collect_loop (reliable srv) (Start url) out w
         = Some (Inr (out @ concat (map page_items ps)),
                 w\<lparr>requests := requests w @ page_urls url ps\<rparr>)"
  using assms
proof (induction srv url ps arbitrary: out w rule: paged.induct)
  case (1 srv url)
  then show ?case by simp
next
  case (2 srv url p)
  let ?w1 = "w\<lparr>requests := requests w @ [url]\<rparr>"
  from 2 have p: "srv url = p" and nl: "\<not> js_truthy (nextLink p)" by simp_all
  have "collect_loop (reliable srv) (Start url) out w
        = collect_loop (reliable srv) (InPage (page_items p) (nextLink p)) out ?w1"
    using p by (intro collect_loop_cong) (simp add: next_Start_reliable)
  also have "\<dots> = collect_loop (reliable srv) (InPage [] (nextLink p)) (out @ page_items p) ?w1"
    by (rule collect_loop_items)
  also have "\<dots> = Some (Inr (out @ page_items p), ?w1)"
    by (subst collect_loop.simps) (simp add: next_InPage_Nil_end nl)
  finally show ?case by simp
next
  case (3 srv url p q ps)
  let ?w1 = "w\<lparr>requests := requests w @ [url]\<rparr>"
  from "3.prems" have p: "srv url = p" and nl: "js_truthy (nextLink p)"
    and rest: "paged srv (or_empty (nextLink p)) (q # ps)" by simp_all
  have "collect_loop (reliable srv) (Start url) out w
        = collect_loop (reliable srv) (InPage (page_items p) (nextLink p)) out ?w1"
    using p by (intro collect_loop_cong) (simp add: next_Start_reliable)
  also have "\<dots> = collect_loop (reliable srv) (InPage [] (nextLink p)) (out @ page_items p) ?w1"
    by (rule collect_loop_items)
  also have "\<dots> = collect_loop (reliable srv) (Start (or_empty (nextLink p))) (out @ page_items p) ?w1"
    by (intro collect_loop_cong) (simp add: next_InPage_Nil_link nl)
  also have "\<dots> = Some (Inr ((out @ page_items p) @ concat (map page_items (q # ps))),
                        ?w1\<lparr>requests := requests ?w1 @ page_urls (or_empty (nextLink p)) (q # ps)\<rparr>)"
    by (rule "3.IH" [OF rest])
  finally show ?case by simp
qed

lemma read_loop_cong:
  assumes "listCollection_next net g w = listCollection_next net g' w'"
  shows "read_loop net bound g out w = read_loop net bound g' out w'"
  by (subst read_loop.simps, subst (2) read_loop.simps) (simp add: assms listMessages_next_def)

lemma read_loop_items:
  assumes "bound = int (length out) + int k" and "0 < k"
  shows "read_loop net bound (InPage items nl) out w
         = (if k \<le> length items then Some (Inr (out @ map mapMsg (take k items)), w)
            else read_loop net bound (InPage [] nl) (out @ map mapMsg items) w)"
  using assms
proof (induction items arbitrary: out k)
  case Nil
  then show ?case by simp
next
  case (Cons x xs)
  show ?case
  proof (cases "k = 1")
    case True
    with Cons.prems have "read_loop net bound (InPage (x # xs) nl) out w
          = Some (Inr (out @ [mapMsg x]), w)"
      by (subst read_loop.simps) (simp add: listMessages_next_def next_InPage_Cons)
    with True show ?thesis by simp
  next
    case False
    with Cons.prems have k: "1 < k" by simp
    with Cons.prems have step: "read_loop net bound (InPage (x # xs) nl) out w
          = read_loop net bound (InPage xs nl) (out @ [mapMsg x]) w"
      by (subst read_loop.simps) (simp add: listMessages_next_def next_InPage_Cons)
    from Cons.prems k have b: "bound = int (length (out @ [mapMsg x])) + int (k - 1)"
      by simp
    from k have "0 < k - 1" by simp
    from Cons.IH [OF b this] step k show ?thesis
      by (cases k) simp_all
  qed
qed

lemma read_loop_paged:
  assumes "paged srv url ps" and "bound = int (length out) + int k" and "0 < k"
  shows "read_loop (reliable srv) bound (Start url) out w
         = Some (Inr (out @ map mapMsg (take k (concat (map page_items ps)))),
                 w\<lparr>requests := requests w @ take (pages_needed k ps) (page_urls url ps)\<rparr>)"
  using assms
proof (induction srv url ps arbitrary: out w k rule: paged.induct)
  case (1 srv url)
  then show ?case by simp
next
  case (2 srv url p)
  let ?w1 = "w\<lparr>requests := requests w @ [url]\<rparr>"
  from "2.prems" have p: "srv url = p" and nl: "\<not> js_truthy (nextLink p)" by simp_all
  have start: "read_loop (reliable srv) bound (Start url) out w
        = read_loop (reliable srv) bound (InPage (page_items p) (nextLink p)) out ?w1"
    using p by (intro read_loop_cong) (simp add: next_Start_reliable)
  have fin: "read_loop (reliable srv) bound (InPage [] (nextLink p)) out' ?w1
        = Some (Inr out', ?w1)" for out'
    by (subst read_loop.simps) (simp add: listMessages_next_def next_InPage_Nil_end nl)
  from start read_loop_items [OF "2.prems"(2,3), of "reliable srv" "page_items p" "nextLink p" ?w1] fin
  show ?case by simp
next
  case (3 srv url p q ps)
  let ?w1 = "w\<lparr>requests := requests w @ [url]\<rparr>"
  let ?out2 = "out @ map mapMsg (page_items p)"
  from "3.prems" have p: "srv url = p" and nl: "js_truthy (nextLink p)"
    and rest: "paged srv (or_empty (nextLink p)) (q # ps)" by simp_all
  have start: "read_loop (reliable srv) bound (Start url) out w
        = read_loop (reliable srv) bound (InPage (page_items p) (nextLink p)) out ?w1"
    using p by (intro read_loop_cong) (simp add: next_Start_reliable)
  show ?case
  proof (cases "k \<le> length (page_items p)")
    case True
    with start read_loop_items [OF "3.prems"(2,3), of "reliable srv" "page_items p" "nextLink p" ?w1]
    show ?thesis by simp
  next
    case False
    then have k2: "0 < k - length (page_items p)" by simp
    from "3.prems"(2) False
    have b2: "bound = int (length ?out2) + int (k - length (page_items p))" by simp
    have "read_loop (reliable srv) bound (Start url) out w
          = read_loop (reliable srv) bound (InPage [] (nextLink p)) ?out2 ?w1"
      using start False
        read_loop_items [OF "3.prems"(2,3), of "reliable srv" "page_items p" "nextLink p" ?w1]
      by simp
    also have "\<dots> = read_loop (reliable srv) bound (Start (or_empty (nextLink p))) ?out2 ?w1"
      by (intro read_loop_cong) (simp add: next_InPage_Nil_link nl)
    also have "\<dots> = Some (Inr (?out2 @ map mapMsg
                   (take (k - length (page_items p)) (concat (map page_items (q # ps))))),
                 ?w1\<lparr>requests := requests ?w1 @
                   take (pages_needed (k - length (page_items p)) (q # ps))
                     (page_urls (or_empty (nextLink p)) (q # ps))\<rparr>)"
      by (rule "3.IH" [OF rest b2 k2])
    finally show ?thesis
      using False by simp
  qed
qed

lemma length_page_urls: "length (page_urls url ps) = length ps"
  by (induction ps arbitrary: url) simp_all

lemma next_never_returns:
  assumes "listCollection_next net g w = Some y"
  shows "\<forall>s w'. y = (s, w') \<longrightarrow> net = reliable srv \<longrightarrow> (\<forall>u. js_truthy (nextLink (srv u))) \<longrightarrow>
           linked g \<longrightarrow> (\<exists>m g'. s = Yield m g' \<and> linked g')"
  using assms
proof (induction rule: listCollection_next.raw_induct [rotated 1, consumes 1, case_names step])
  case (step f net g w y)
  show ?case
  proof (intro allI impI)
    fix s w' assume y: "y = (s, w')" and net: "net = reliable srv"
      and links: "\<forall>u. js_truthy (nextLink (srv u))" and g: "linked g"
    show "\<exists>m g'. s = Yield m g' \<and> linked g'"
    proof (cases g)
      case Done
      with g show ?thesis by simp
    next
      case (Start url)
      with step.hyps net
      have "f net (InPage (page_items (srv url)) (nextLink (srv url)))
              (w\<lparr>requests := requests w @ [url]\<rparr>) = Some y"
        by (simp add: httpGetWithBackoff_reliable)
      from step.IH [OF this] y net links show ?thesis by simp
    next
      case (InPage items nl)
      show ?thesis
      proof (cases items)
        case (Cons it rest)
        with step.hyps InPage y g show ?thesis by auto
      next
        case Nil
        with step.hyps InPage g have "f net (Start (or_empty nl)) w = Some y"
          by simp
        from step.IH [OF this] y net links show ?thesis by simp
      qed
    qed
  qed
qed

lemma collect_loop_never_returns:
  assumes "collect_loop net g out w = Some y"
  shows "net = reliable srv \<longrightarrow> (\<forall>u. js_truthy (nextLink (srv u))) \<longrightarrow> linked g \<longrightarrow> False"
  using assms
proof (induction rule: collect_loop.raw_induct [rotated 1, consumes 1, case_names step])
  case (step f net g out w y)
  show ?case
  proof (intro impI)
    assume net: "net = reliable srv" and links: "\<forall>u. js_truthy (nextLink (srv u))"
      and g: "linked g"
    show False
    proof (cases "listCollection_next net g w")
      case None
      with step.hyps show ?thesis by simp
    next
      case (Some sw)
      obtain s w1 where sw: "sw = (s, w1)" by (cases sw)
      from next_never_returns [OF Some, of srv] sw net links g
      obtain m g' where s: "s = Yield m g'" and g': "linked g'" by auto
      with step.hyps Some sw have "f net g' (out @ [m]) w1 = Some y" by simp
      from step.IH [OF this] net links g' show ?thesis by simp
    qed
  qed
qed

lemma collect_loop_endless:
  assumes "\<forall>u. js_truthy (nextLink (srv u))"
  shows "collect_loop (reliable srv) (Start url) out w = None"
proof (cases "collect_loop (reliable srv) (Start url) out w")
  case None
  then show ?thesis .
next
  case (Some y)
  from collect_loop_never_returns [OF Some, of srv] assms show ?thesis by simp
qed

lemma next_Start_page:
  assumes "rejects net (length (requests w)) url es" and "length es \<le> 4"
    and "net (length (requests w) + length es) url = Resolved p"
  shows "listCollection_next net (Start url) w
         = listCollection_next net (InPage (page_items p) (nextLink p))
             (w\<lparr>requests := requests w @ replicate (Suc (length es)) url,
                sleeps := sleeps w @ delays 0 es\<rparr>)"
  by (subst listCollection_next.simps) (simp add: httpGetWithBackoff_succeeds [OF assms])

lemma next_Start_throws:
  assumes "rejects net (length (requests w)) url es" and "length es \<le> 4"
    and "net (length (requests w) + length es) url = Rejected e"
    and "\<not> transient e \<or> length es = 4"
  shows "listCollection_next net (Start url) w
         = Some (Throw e, w\<lparr>requests := requests w @ replicate (Suc (length es)) url,
                             sleeps := sleeps w @ delays 0 es\<rparr>)"
  by (subst listCollection_next.simps) (simp add: httpGetWithBackoff_throws [OF assms])

lemma collect_loop_pages_then:
  assumes "pages_then net (length (requests w)) url ps fin"
  shows "collect_loop net (Start url) out w
         = Some (at_end fin (out @ script_items ps),
                 w\<lparr>requests := requests w @ script_requests url ps fin,
                    sleeps := sleeps w @ script_sleeps ps fin\<rparr>)"
  using assms
proof (induction ps arbitrary: url out w)
  case Nil
  then obtain es e where fin: "fin = Fails es e" and es: "length es \<le> 4"
    and rej: "rejects net (length (requests w)) url es"
    and e: "net (length (requests w) + length es) url = Rejected e"
    and last: "\<not> transient e \<or> length es = 4"
    by (cases fin) auto
  show ?case
    by (subst collect_loop.simps) (simp add: next_Start_throws [OF rej es e last] fin)
next
  case (Cons entry rest)
  obtain es items link where entry: "entry = (es, items, link)" by (cases entry)
  let ?w1 = "w\<lparr>requests := requests w @ replicate (Suc (length es)) url,
               sleeps := sleeps w @ delays 0 es\<rparr>"
  from Cons.prems entry obtain p where es: "length es \<le> 4"
    and rej: "rejects net (length (requests w)) url es"
    and p: "net (length (requests w) + length es) url = Resolved p"
    and link: "nextLink p = link"
    and items: "page_value p = Some items \<or> page_value p = None \<and> items = []"
    by (auto split: response.splits)
  from items have pi: "page_items p = items"
    by (auto simp: page_items_def)
  have "collect_loop net (Start url) out w = collect_loop net (InPage items link) out ?w1"
    by (intro collect_loop_cong) (simp add: next_Start_page [OF rej es p] pi link)
  also have "\<dots> = collect_loop net (InPage [] link) (out @ items) ?w1"
    by (rule collect_loop_items)
  finally have start: "collect_loop net (Start url) out w
                       = collect_loop net (InPage [] link) (out @ items) ?w1" .
  show ?case
  proof (cases "js_truthy link")
    case False
    with Cons.prems entry have "rest = []" and "fin = NoLink"
      by (auto simp: js_truthy_def split: option.splits if_splits response.splits)
    moreover have "collect_loop net (InPage [] link) (out @ items) ?w1
                   = Some (Inr (out @ items), ?w1)"
      by (subst collect_loop.simps) (simp add: next_InPage_Nil_end False)
    ultimately show ?thesis
      using start entry by simp
  next
    case True
    then obtain l where l: "link = Some l" "l \<noteq> []"
      by (cases link) (auto simp: js_truthy_def)
    with Cons.prems entry
    have rest: "pages_then net (length (requests ?w1)) l rest fin"
      by (auto split: response.splits)
    have "listCollection_next net (InPage [] link) ?w1 = listCollection_next net (Start l) ?w1"
      using next_InPage_Nil_link [OF True, of net ?w1] l by (simp add: or_empty_def)
    then have "collect_loop net (InPage [] link) (out @ items) ?w1
          = collect_loop net (Start l) (out @ items) ?w1"
      by (rule collect_loop_cong)
    also have "\<dots> = Some (at_end fin ((out @ items) @ script_items rest),
                 ?w1\<lparr>requests := requests ?w1 @ script_requests l rest fin,
                      sleeps := sleeps ?w1 @ script_sleeps rest fin\<rparr>)"
      by (rule Cons.IH [OF rest])
    finally show ?thesis
      using start entry l by simp
  qed
qed

lemma read_loop_pages_then:
  assumes "pages_then net (length (requests w)) url ps fin"
    and "bound = int (length out) + int k" and "0 < k"
  shows "read_loop net bound (Start url) out w
         = (if k \<le> length (script_items ps)
            then Some (Inr (out @ map mapMsg (take k (script_items ps))),
                       w\<lparr>requests := requests w
                                      @ script_requests url (take (entries_needed k ps) ps) NoLink,
                          sleeps := sleeps w
                                      @ script_sleeps (take (entries_needed k ps) ps) NoLink\<rparr>)
            else Some (at_end fin (out @ map mapMsg (script_items ps)),
                       w\<lparr>requests := requests w @ script_requests url ps fin,
                          sleeps := sleeps w @ script_sleeps ps fin\<rparr>))"
  using assms
proof (induction ps arbitrary: url out w k)
  case Nil
  then obtain es e where fin: "fin = Fails es e" and es: "length es \<le> 4"
    and rej: "rejects net (length (requests w)) url es"
    and e: "net (length (requests w) + length es) url = Rejected e"
    and last: "\<not> transient e \<or> length es = 4"
    by (cases fin) auto
  from Nil.prems(3) show ?case
    by (subst read_loop.simps)
       (simp add: listMessages_next_def next_Start_throws [OF rej es e last] fin)
next
  case (Cons entry rest)
  obtain es items link where entry: "entry = (es, items, link)" by (cases entry)
  let ?w1 = "w\<lparr>requests := requests w @ replicate (Suc (length es)) url,
               sleeps := sleeps w @ delays 0 es\<rparr>"
  let ?out2 = "out @ map mapMsg items"
  from Cons.prems(1) entry obtain p where es: "length es \<le> 4"
    and rej: "rejects net (length (requests w)) url es"
    and p: "net (length (requests w) + length es) url = Resolved p"
    and link: "nextLink p = link"
    and items: "page_value p = Some items \<or> page_value p = None \<and> items = []"
    by (auto split: response.splits)
  from items have pi: "page_items p = items"
    by (auto simp: page_items_def)
  have start: "read_loop net bound (Start url) out w
               = read_loop net bound (InPage items link) out ?w1"
    by (intro read_loop_cong) (simp add: next_Start_page [OF rej es p] pi link)
  note inpage = read_loop_items [OF Cons.prems(2,3), of net items link ?w1]
  show ?case
  proof (cases "k \<le> length items")
    case True
    with start inpage entry show ?thesis by simp
  next
    case False
    then have k2: "0 < k - length items" by simp
    from Cons.prems(2) False
    have b2: "bound = int (length ?out2) + int (k - length items)" by simp
    from start inpage False
    have start': "read_loop net bound (Start url) out w
                  = read_loop net bound (InPage [] link) ?out2 ?w1"
      by simp
    show ?thesis
    proof (cases "js_truthy link")
      case nolink: False
      with Cons.prems(1) entry have "rest = []" and "fin = NoLink"
        by (auto simp: js_truthy_def split: option.splits if_splits response.splits)
      moreover have "read_loop net bound (InPage [] link) ?out2 ?w1 = Some (Inr ?out2, ?w1)"
        by (subst read_loop.simps) (simp add: listMessages_next_def next_InPage_Nil_end nolink)
      ultimately show ?thesis
        using start' entry False by simp
    next
      case True
      then obtain l where l: "link = Some l" "l \<noteq> []"
        by (cases link) (auto simp: js_truthy_def)
      with Cons.prems(1) entry
      have rest: "pages_then net (length (requests ?w1)) l rest fin"
        by (auto split: response.splits)
      have "listCollection_next net (InPage [] link) ?w1 = listCollection_next net (Start l) ?w1"
        using next_InPage_Nil_link [OF True, of net ?w1] l by (simp add: or_empty_def)
      then have "read_loop net bound (InPage [] link) ?out2 ?w1
            = read_loop net bound (Start l) ?out2 ?w1"
        by (rule read_loop_cong)
      with start' Cons.IH [OF rest b2 k2] entry l False show ?thesis
        by (auto simp: take_Cons')
    qed
  qed
qed

text \<open>
  C3: for every remote side and every scan of a collection on it (pages that follow one
  another by their links, each possibly after transient errors that are retried, up to
  a page without a link or to a GET that fails), the loop that takes every item of the
  generator returns: the items of the pages' \<open>value\<close> arrays in order when the scan ends
  at a page without a link, and the error thrown when it ends at a GET that fails;
  it has issued exactly the GETs of the scan, each page asked for at the link of the
  page before. A reader that stops at \<open>k\<close> items (\<open>k\<close> from 1 on) returns the first \<open>k\<close>
  items when the pages hold that many, and has issued the GETs of only the pages that
  hold them; otherwise it returns as the loop above. And where every page has a link,
  the loop that takes every item does not return.
\<close>

theorem listMessages_pages_in_order:
  "(pages_then net (length (requests w)) url ps fin \<longrightarrow>
      collect_loop net (Start url) [] w
        = Some (at_end fin (script_items ps),
                w\<lparr>requests := requests w @ script_requests url ps fin,
                   sleeps := sleeps w @ script_sleeps ps fin\<rparr>)) \<and>
   (pages_then mnet (length (requests w)) url ms fin \<longrightarrow>
      (\<forall>k>0. read_loop mnet (int k) (Start url) [] w
               = (if k \<le> length (script_items ms)
                  then Some (Inr (map mapMsg (take k (script_items ms))),
                             w\<lparr>requests := requests w
                                   @ script_requests url (take (entries_needed k ms) ms) NoLink,
                                sleeps := sleeps w
                                   @ script_sleeps (take (entries_needed k ms) ms) NoLink\<rparr>)
                  else Some (at_end fin (map mapMsg (script_items ms)),
                             w\<lparr>requests := requests w @ script_requests url ms fin,
                                sleeps := sleeps w @ script_sleeps ms fin\<rparr>)))) \<and>
   ((\<forall>u. js_truthy (nextLink (srv u))) \<longrightarrow>
      collect_loop (reliable srv) (Start url) [] w = None)"
proof (intro conjI allI impI)
  assume "pages_then net (length (requests w)) url ps fin"
  from collect_loop_pages_then [OF this, of "[]"]
  show "collect_loop net (Start url) [] w
        = Some (at_end fin (script_items ps),
                w\<lparr>requests := requests w @ script_requests url ps fin,
                   sleeps := sleeps w @ script_sleeps ps fin\<rparr>)"
    by simp
next
  fix k :: nat
  assume "pages_then mnet (length (requests w)) url ms fin" and "0 < k"
  from read_loop_pages_then [OF this(1), of "int k" "[]" k] this(2)
  show "read_loop mnet (int k) (Start url) [] w
               = (if k \<le> length (script_items ms)
                  then Some (Inr (map mapMsg (take k (script_items ms))),
                             w\<lparr>requests := requests w
                                   @ script_requests url (take (entries_needed k ms) ms) NoLink,
                                sleeps := sleeps w
                                   @ script_sleeps (take (entries_needed k ms) ms) NoLink\<rparr>)
                  else Some (at_end fin (map mapMsg (script_items ms)),
                             w\<lparr>requests := requests w @ script_requests url ms fin,
                                sleeps := sleeps w @ script_sleeps ms fin\<rparr>))"
    by simp
next
  assume "\<forall>u. js_truthy (nextLink (srv u))"
  then show "collect_loop (reliable srv) (Start url) [] w = None"
    by (rule collect_loop_endless)
qed

theorem listMessages_pages_in_order_witness:
  "pages_then (reliable three_pages) 0 ''/page1''
     [([], [example_message ''a'' ''2024-05-05'', example_message ''b'' ''2024-05-04''],
       Some ''/page2''),
      ([], [example_message ''c'' ''2024-05-03'', example_message ''d'' ''2024-05-02''],
       Some ''/page3''),
      ([], [example_message ''e'' ''2024-05-01''], None)] NoLink \<and>
   collect_loop (reliable three_pages) (Start ''/page1'') [] \<lparr>requests = [], sleeps = []\<rparr>
     = Some (Inr [example_message ''a'' ''2024-05-05'', example_message ''b'' ''2024-05-04'',
                  example_message ''c'' ''2024-05-03'', example_message ''d'' ''2024-05-02'',
                  example_message ''e'' ''2024-05-01''],
             \<lparr>requests = [''/page1'', ''/page2'', ''/page3''], sleeps = []\<rparr>) \<and>
   read_loop (reliable three_pages) 3 (Start ''/page1'') [] \<lparr>requests = [], sleeps = []\<rparr>
     = Some (Inr [example_mail ''a'' ''2024-05-05'', example_mail ''b'' ''2024-05-04'',
                  example_mail ''c'' ''2024-05-03''],
             \<lparr>requests = [''/page1'', ''/page2''], sleeps = []\<rparr>) \<and>
   pages_then flaky_pages 0 ''/page1''
     [([], [example_message ''a'' ''2024-05-05'', example_message ''b'' ''2024-05-04''],
       Some ''/page2''),
      ([too_many_requests],
       [example_message ''c'' ''2024-05-03'', example_message ''d'' ''2024-05-02''],
       Some ''/page3''),
      ([], [example_message ''e'' ''2024-05-01''], None)] NoLink \<and>
   collect_loop flaky_pages (Start ''/page1'') [] \<lparr>requests = [], sleeps = []\<rparr>
     = Some (Inr [example_message ''a'' ''2024-05-05'', example_message ''b'' ''2024-05-04'',
                  example_message ''c'' ''2024-05-03'', example_message ''d'' ''2024-05-02'',
                  example_message ''e'' ''2024-05-01''],
             \<lparr>requests = [''/page1'', ''/page2'', ''/page2'', ''/page3''],
              sleeps = [Num 3000]\<rparr>) \<and>
   pages_then broken_pages 0 ''/page1''
     [([], [example_message ''a'' ''2024-05-05'', example_message ''b'' ''2024-05-04''],
       Some ''/page2'')] (Fails [] not_found) \<and>
   collect_loop broken_pages (Start ''/page1'') [] \<lparr>requests = [], sleeps = []\<rparr>
     = Some (Inl not_found, \<lparr>requests = [''/page1'', ''/page2''], sleeps = []\<rparr>) \<and>
   read_loop broken_pages 2 (Start ''/page1'') [] \<lparr>requests = [], sleeps = []\<rparr>
     = Some (Inr [example_mail ''a'' ''2024-05-05'', example_mail ''b'' ''2024-05-04''],
             \<lparr>requests = [''/page1''], sleeps = []\<rparr>)"
proof -
  let ?w = "\<lparr>requests = [], sleeps = []\<rparr>"
  let ?p1 = "([] :: http_error list,
              [example_message ''a'' ''2024-05-05'', example_message ''b'' ''2024-05-04''],
              Some ''/page2'')"
  let ?p2 = "\<lambda>es :: http_error list.
               (es, [example_message ''c'' ''2024-05-03'', example_message ''d'' ''2024-05-02''],
                Some ''/page3'')"
  let ?p3 = "([] :: http_error list, [example_message ''e'' ''2024-05-01''],
              None :: string option)"
  have plain: "pages_then (reliable three_pages) (length (requests ?w)) ''/page1''
                 [?p1, ?p2 [], ?p3] NoLink"
    by (simp add: reliable_def three_pages_def)
  have flaky: "pages_then flaky_pages (length (requests ?w)) ''/page1''
                 [?p1, ?p2 [too_many_requests], ?p3] NoLink"
    by (simp add: flaky_pages_def three_pages_def transient_def too_many_requests_def)
  have broken: "pages_then broken_pages (length (requests ?w)) ''/page1'' [?p1]
                  (Fails [] not_found)"
    by (simp add: broken_pages_def three_pages_def transient_def not_found_def)
  note thm1 = listMessages_pages_in_order
    [of "reliable three_pages" ?w "''/page1''" "[?p1, ?p2 [], ?p3]" NoLink
        "reliable three_pages" "[?p1, ?p2 [], ?p3]" three_pages]
  note thm2 = listMessages_pages_in_order
    [of flaky_pages ?w "''/page1''" "[?p1, ?p2 [too_many_requests], ?p3]" NoLink
        flaky_pages "[?p1, ?p2 [too_many_requests], ?p3]" three_pages]
  note thm3 = listMessages_pages_in_order
    [of broken_pages ?w "''/page1''" "[?p1]" "Fails [] not_found"
        broken_pages "[?p1]" three_pages]
  from thm1 [THEN conjunct1, THEN mp, OF plain]
  have c1: "collect_loop (reliable three_pages) (Start ''/page1'') [] ?w
     = Some (Inr [example_message ''a'' ''2024-05-05'', example_message ''b'' ''2024-05-04'',
                  example_message ''c'' ''2024-05-03'', example_message ''d'' ''2024-05-02'',
                  example_message ''e'' ''2024-05-01''],
             \<lparr>requests = [''/page1'', ''/page2'', ''/page3''], sleeps = []\<rparr>)"
    by simp
  from thm1 [THEN conjunct2, THEN conjunct1, THEN mp, OF plain, rule_format, of 3]
  have r1: "read_loop (reliable three_pages) 3 (Start ''/page1'') [] ?w
     = Some (Inr [example_mail ''a'' ''2024-05-05'', example_mail ''b'' ''2024-05-04'',
                  example_mail ''c'' ''2024-05-03''],
             \<lparr>requests = [''/page1'', ''/page2''], sleeps = []\<rparr>)"
    by (simp add: mapMsg_def example_message_def example_mail_def js_truthy_def)
  from thm2 [THEN conjunct1, THEN mp, OF flaky]
  have c2: "collect_loop flaky_pages (Start ''/page1'') [] ?w
     = Some (Inr [example_message ''a'' ''2024-05-05'', example_message ''b'' ''2024-05-04'',
                  example_message ''c'' ''2024-05-03'', example_message ''d'' ''2024-05-02'',
                  example_message ''e'' ''2024-05-01''],
             \<lparr>requests = [''/page1'', ''/page2'', ''/page2'', ''/page3''],
              sleeps = [Num 3000]\<rparr>)"
    by (simp add: too_many_requests_def retryAfter_def Number_js_def trim_def is_space_def
          is_digit_def decimal_def digit_val_def strip_sign_def unsigned_decimal_def
          exponent_part_def pow10_def Let_def)
  from thm3 [THEN conjunct1, THEN mp, OF broken]
  have c3: "collect_loop broken_pages (Start ''/page1'') [] ?w
     = Some (Inl not_found, \<lparr>requests = [''/page1'', ''/page2''], sleeps = []\<rparr>)"
    by simp
  from thm3 [THEN conjunct2, THEN conjunct1, THEN mp, OF broken, rule_format, of 2]
  have r3: "read_loop broken_pages 2 (Start ''/page1'') [] ?w
     = Some (Inr [example_mail ''a'' ''2024-05-05'', example_mail ''b'' ''2024-05-04''],
             \<lparr>requests = [''/page1''], sleeps = []\<rparr>)"
    by (simp add: mapMsg_def example_message_def example_mail_def js_truthy_def)
  from plain flaky broken c1 r1 c2 c3 r3 show ?thesis
    by simp
qed

section \<open>Properties of the readers and searches\<close>

lemma read_loop_bound:
  assumes "read_loop net bound g out w = Some y"
  shows "\<forall>res w'. y = (Inr res, w') \<longrightarrow> int (length out) < bound \<longrightarrow> int (length res) \<le> bound"
  using assms
proof (induction rule: read_loop.raw_induct [rotated 1, consumes 1, case_names step])
  case (step f net bound g out w y)
  show ?case
  proof (cases "listMessages_next net g w")
    case None
    with step.hyps show ?thesis by simp
  next
    case (Some sw)
    obtain s w1 where sw: "sw = (s, w1)" by (cases sw)
    show ?thesis
    proof (cases s)
      case (Yield m g')
      show ?thesis
      proof (cases "bound \<le> int (length (out @ [mapMsg m]))")
        case True
        with step.hyps Some sw Yield show ?thesis
          by (auto simp: Let_def)
      next
        case False
        with step.hyps Some sw Yield
        have "f net bound g' (out @ [mapMsg m]) w1 = Some y"
          by (simp add: Let_def)
        from step.IH [OF this] False show ?thesis
          by auto
      qed
    next
      case Return
      with step.hyps Some sw show ?thesis by auto
    next
      case (Throw e)
      with step.hyps Some sw show ?thesis by auto
    qed
  qed
qed

lemma read_messages_within:
  assumes "read_messages net url bound w = Some (Inr r, w')"
  shows "within bound r"
proof -
  from assms obtain out where run: "read_loop net bound (Start url) [] w = Some (Inr out, w')"
    and r: "r = returned out"
    by (auto simp: read_messages_def split: option.splits sum.splits)
  from read_loop_bound [OF run] have "1 \<le> bound \<longrightarrow> int (length out) \<le> bound"
    by simp
  with r show ?thesis
    by (simp add: within_def returned_def)
qed

lemma push_until_bound:
  assumes "int (length out) < bound" and "push_until bound out ms = (out', stop)"
  shows "int (length out') \<le> bound \<and> (\<not> stop \<longrightarrow> int (length out') < bound)"
  using assms
proof (induction ms arbitrary: out)
  case Nil
  then show ?case by simp
next
  case (Cons m ms)
  show ?case
  proof (cases "bound \<le> int (length (out @ [mapMsg m]))")
    case True
    with Cons.prems show ?thesis by (auto simp: Let_def)
  next
    case False
    with Cons.prems have "push_until bound (out @ [mapMsg m]) ms = (out', stop)"
      by (simp add: Let_def)
    moreover from False have "int (length (out @ [mapMsg m])) < bound" by simp
    ultimately show ?thesis by (rule Cons.IH [rotated])
  qed
qed

lemma length_sort_insert: "length (sort_insert cmp x ys) = Suc (length ys)"
  by (induction ys) simp_all

lemma length_js_sort: "length (js_sort cmp xs) = length xs"
proof -
  have "length (foldl (\<lambda>acc x. sort_insert cmp x acc) acc xs) = length acc + length xs" for acc
    by (induction xs arbitrary: acc) (simp_all add: length_sort_insert)
  then show ?thesis by (simp add: js_sort_def)
qed

lemma search_sorted_loop_bound:
  assumes "search_sorted_loop URL net bound url out w = Some y"
  shows "\<forall>r w'. y = (Inr r, w') \<longrightarrow>
           count r = length (results r) \<and>
           (int (length out) < bound \<longrightarrow> int (length (results r)) \<le> bound)"
  using assms
proof (induction rule: search_sorted_loop.raw_induct [rotated 1, consumes 1, case_names step])
  case (step f URL net bound url out w y)
  obtain res w1 where get: "httpGetWithBackoff net url 4 w = (res, w1)"
    by (cases "httpGetWithBackoff net url 4 w")
  show ?case
  proof (cases res)
    case (Inl e)
    with step.hyps get show ?thesis by auto
  next
    case (Inr resp)
    obtain out' stop where push: "push_until bound out (page_items resp) = (out', stop)"
      by (cases "push_until bound out (page_items resp)")
    have le: "int (length out') \<le> bound" and lt': "\<not> stop \<longrightarrow> int (length out') < bound"
      if "int (length out) < bound"
      using push_until_bound [OF that push] by simp_all
    show ?thesis
    proof (intro allI impI)
      fix r w' assume y: "y = (Inr r, w')"
      show "count r = length (results r) \<and>
            (int (length out) < bound \<longrightarrow> int (length (results r)) \<le> bound)"
      proof (cases "stop \<or> \<not> js_truthy (nextLink resp)")
        case True
        with step.hyps get Inr push y have "r = returned (js_sort by_received out')"
          by (auto split: if_splits)
        with le show ?thesis
          by (simp add: returned_def length_js_sort)
      next
        case False
        show ?thesis
        proof (cases "URL (or_empty (nextLink resp))")
          case None
          with False step.hyps get Inr push y show ?thesis by auto
        next
          case (Some url')
          with False step.hyps get Inr push
          have "f URL net bound url' out' w1 = Some y"
            by simp
          from step.IH [OF this] y lt' False show ?thesis
            by auto
        qed
      qed
    qed
  qed
qed

lemma searchAllMailAllPages_loop_bound:
  assumes "searchAllMailAllPages_loop URL net bound url out w = Some y"
  shows "\<forall>r w'. y = (Inr r, w') \<longrightarrow>
           count r = length (results r) \<and>
           (int (length out) < bound \<longrightarrow> int (length (results r)) \<le> bound)"
  using assms
proof (induction rule: searchAllMailAllPages_loop.raw_induct [rotated 1, consumes 1, case_names step])
  case (step f URL net bound url out w y)
  obtain res w1 where get: "httpGetWithBackoff net url 4 w = (res, w1)"
    by (cases "httpGetWithBackoff net url 4 w")
  show ?case
  proof (cases res)
    case (Inl e)
    with step.hyps get show ?thesis by auto
  next
    case (Inr resp)
    obtain out' stop where push: "push_until bound out (page_items resp) = (out', stop)"
      by (cases "push_until bound out (page_items resp)")
    have le: "int (length out') \<le> bound" and lt': "\<not> stop \<longrightarrow> int (length out') < bound"
      if "int (length out) < bound"
      using push_until_bound [OF that push] by simp_all
    show ?thesis
    proof (intro allI impI)
      fix r w' assume y: "y = (Inr r, w')"
      show "count r = length (results r) \<and>
            (int (length out) < bound \<longrightarrow> int (length (results r)) \<le> bound)"
      proof (cases "stop \<or> \<not> js_truthy (nextLink resp)")
        case True
        with step.hyps get Inr push y have "r = returned out'"
          by (auto split: if_splits)
        with le show ?thesis
          by (simp add: returned_def)
      next
        case False
        show ?thesis
        proof (cases "URL (or_empty (nextLink resp))")
          case None
          with False step.hyps get Inr push y show ?thesis by auto
        next
          case (Some url')
          with False step.hyps get Inr push
          have "f URL net bound url' out' w1 = Some y"
            by simp
          from step.IH [OF this] y lt' False show ?thesis
            by auto
        qed
      qed
    qed
  qed
qed

text \<open>
  C10, as amended: whenever a reader or a search returns a result, its count is the
  length of its results, and for a whole-number bound of at least 1 (\<open>top\<close>, \<open>max\<close> or
  \<open>limit\<close>) the results are no more than the bound.
\<close>

theorem count_is_length_and_results_within_bound:
  "(readLatest net url bound w = Some (Inr r, w') \<longrightarrow> within bound r) \<and>
   (readSentLatest net url bound w = Some (Inr r, w') \<longrightarrow> within bound r) \<and>
   (readAllMailbox net url bound w = Some (Inr r, w') \<longrightarrow> within bound r) \<and>
   (readFolderAll net url bound w = Some (Inr r, w') \<longrightarrow> within bound r) \<and>
   (filterAllMailByDate net url bound w = Some (Inr r, w') \<longrightarrow> within bound r) \<and>
   (readFolderByIdAll net folder_id url bound w = Some (Inr r, w') \<longrightarrow> within bound r) \<and>
   (searchAllMail URL net url bound w = Some (Inr r, w') \<longrightarrow> within bound r) \<and>
   (searchAllMailAllPages URL net url bound w = Some (Inr r, w') \<longrightarrow> within bound r) \<and>
   (searchBySenderEmail URL net email url bound w = Some (Inr r, w') \<longrightarrow> within bound r)"
proof -
  have a: "within bound r" if "search_sorted_loop URL net bound url [] w = Some (Inr r, w')"
    using search_sorted_loop_bound [OF that] by (simp add: within_def)
  have b: "within bound r" if "searchAllMailAllPages_loop URL net bound url [] w = Some (Inr r, w')"
    using searchAllMailAllPages_loop_bound [OF that] by (simp add: within_def)
  have c: "within bound r" if "read_messages net url bound w = Some (Inr r, w')"
    using that by (rule read_messages_within)
  show ?thesis
    unfolding readLatest_def readSentLatest_def readAllMailbox_def readFolderAll_def
      filterAllMailByDate_def readFolderByIdAll_def searchAllMail_def
      searchAllMailAllPages_def searchBySenderEmail_def
    using a b c by (auto split: if_splits)
qed

lemma read_messages_example:
  "read_messages (reliable three_pages) ''/page1'' 3 \<lparr>requests = [], sleeps = []\<rparr>
     = Some (Inr \<lparr>results = [example_mail ''a'' ''2024-05-05'', example_mail ''b'' ''2024-05-04'',
                             example_mail ''c'' ''2024-05-03''], count = 3\<rparr>,
             \<lparr>requests = [''/page1'', ''/page2''], sleeps = []\<rparr>)"
proof -
  have p: "paged three_pages ''/page1''
     [three_pages ''/page1'', three_pages ''/page2'', three_pages ''/page3'']"
    by (simp add: three_pages_def js_truthy_def or_empty_def)
  from read_loop_paged [OF p, of 3 "[]" 3 "\<lparr>requests = [], sleeps = []\<rparr>"]
  show ?thesis
    by (simp add: read_messages_def returned_def three_pages_def page_items_def or_empty_def
          mapMsg_def example_message_def example_mail_def js_truthy_def)
qed

theorem count_is_length_and_results_within_bound_witness:
  "readLatest (reliable three_pages) ''/page1'' 3 \<lparr>requests = [], sleeps = []\<rparr>
     = Some (Inr \<lparr>results = [example_mail ''a'' ''2024-05-05'', example_mail ''b'' ''2024-05-04'',
                             example_mail ''c'' ''2024-05-03''], count = 3\<rparr>,
             \<lparr>requests = [''/page1'', ''/page2''], sleeps = []\<rparr>) \<and>
   within 3 \<lparr>results = [example_mail ''a'' ''2024-05-05'', example_mail ''b'' ''2024-05-04'',
                         example_mail ''c'' ''2024-05-03''], count = 3\<rparr>"
  using count_is_length_and_results_within_bound
    [of "reliable three_pages" "''/page1''" 3 "\<lparr>requests = [], sleeps = []\<rparr>"
        "\<lparr>results = [example_mail ''a'' ''2024-05-05'', example_mail ''b'' ''2024-05-04'',
                     example_mail ''c'' ''2024-05-03''], count = 3\<rparr>"
        "\<lparr>requests = [''/page1'', ''/page2''], sleeps = []\<rparr>"]
    read_messages_example
  by (simp add: readLatest_def)

text \<open>
  The claim as it was stated, for every bound: with the bound 0 the loop still pushes
  the first item before it tests \<open>out.length >= max\<close>, and returns one result.
\<close>

theorem results_exceed_bound_zero_counterexample:
  "readAllMailbox (reliable three_pages) ''/page1'' 0 \<lparr>requests = [], sleeps = []\<rparr>
     = Some (Inr \<lparr>results = [example_mail ''a'' ''2024-05-05''], count = 1\<rparr>,
             \<lparr>requests = [''/page1''], sleeps = []\<rparr>) \<and>
   \<not> int (length (results \<lparr>results = [example_mail ''a'' ''2024-05-05''], count = 1\<rparr>)) \<le> 0"
  by (simp add: readAllMailbox_def read_messages_def read_loop.simps listMessages_next_def
        listCollection_next.simps httpGetWithBackoff_def httpGetWithBackoff_loop.simps
        reliable_def three_pages_def page_items_def returned_def mapMsg_def
        example_message_def example_mail_def js_truthy_def)

text \<open>
  The two searches that sort return results in which no item has a received timestamp
  below the one after it.
\<close>

lemma str_lt_asym: "str_lt x y \<Longrightarrow> \<not> str_lt y x"
  by (induction x y rule: str_lt.induct) auto

lemma js_lt_asym: "js_lt a b \<Longrightarrow> \<not> js_lt b a"
  by (auto simp: js_lt_def split: option.splits dest: str_lt_asym)

lemma sort_insert_received_desc:
  "received_desc ys \<Longrightarrow> received_desc (sort_insert by_received x ys)"
  by (induction ys rule: received_desc.induct)
     (auto simp: by_received_def dest: js_lt_asym split: if_splits)

lemma js_sort_received_desc: "received_desc (js_sort by_received xs)"
proof -
  have "received_desc (foldl (\<lambda>acc x. sort_insert by_received x acc) acc xs)"
    if "received_desc acc" for acc
    using that by (induction xs arbitrary: acc) (simp_all add: sort_insert_received_desc)
  from this [of "[]"] show ?thesis by (simp add: js_sort_def)
qed

lemma search_sorted_loop_sorted:
  assumes "search_sorted_loop URL net bound url out w = Some y"
  shows "\<forall>r w'. y = (Inr r, w') \<longrightarrow> received_desc (results r)"
  using assms
proof (induction rule: search_sorted_loop.raw_induct [rotated 1, consumes 1, case_names step])
  case (step f URL net bound url out w y)
  obtain res w1 where get: "httpGetWithBackoff net url 4 w = (res, w1)"
    by (cases "httpGetWithBackoff net url 4 w")
  obtain out' stop where push: "push_until bound out (page_items (projr res)) = (out', stop)"
    by (cases "push_until bound out (page_items (projr res))")
  show ?case
  proof (cases res)
    case (Inl e)
    with step.hyps get show ?thesis by auto
  next
    case (Inr resp)
    show ?thesis
    proof (cases "stop \<or> \<not> js_truthy (nextLink resp)")
      case True
      with step.hyps get Inr push show ?thesis
        by (auto simp: returned_def js_sort_received_desc split: if_splits)
    next
      case False
      show ?thesis
      proof (cases "URL (or_empty (nextLink resp))")
        case None
        with False step.hyps get Inr push show ?thesis by auto
      next
        case (Some url')
        with False step.hyps get Inr push
        have "f URL net bound url' out' w1 = Some y"
          by simp
        from step.IH [OF this] show ?thesis .
      qed
    qed
  qed
qed

lemma searches_that_sort:
  "(searchAllMail URL net url bound w = Some (Inr r, w') \<longrightarrow> received_desc (results r)) \<and>
   (searchBySenderEmail URL net email url bound w = Some (Inr r, w') \<longrightarrow> received_desc (results r))"
  using search_sorted_loop_sorted [of URL net bound url "[]" w "(Inr r, w')"]
  by (auto simp: searchAllMail_def searchBySenderEmail_def split: if_splits)

text \<open>
  C7: \<open>searchAllMailAllPages\<close> returns \<open>out\<close> as it was accumulated. On a page whose
  items come oldest first its results are not sorted by received timestamp descending,
  where \<open>searchAllMail\<close> on the same page sorts them.
\<close>

theorem searchAllMailAllPages_not_sorted:
  "searchAllMailAllPages Some (reliable oldest_first) ''/search'' 1000
       \<lparr>requests = [], sleeps = []\<rparr>
     = Some (Inr \<lparr>results = [example_mail ''x'' ''2024-05-01'', example_mail ''y'' ''2024-05-02''],
                  count = 2\<rparr>,
             \<lparr>requests = [''/search''], sleeps = []\<rparr>) \<and>
   received_desc [example_mail ''x'' ''2024-05-01'', example_mail ''y'' ''2024-05-02''] = False \<and>
   searchAllMail Some (reliable oldest_first) ''/search'' 1000
       \<lparr>requests = [], sleeps = []\<rparr>
     = Some (Inr \<lparr>results = [example_mail ''y'' ''2024-05-02'', example_mail ''x'' ''2024-05-01''],
                  count = 2\<rparr>,
             \<lparr>requests = [''/search''], sleeps = []\<rparr>) \<and>
   received_desc [example_mail ''y'' ''2024-05-02'', example_mail ''x'' ''2024-05-01'']"
  by (simp add: searchAllMailAllPages_def searchAllMailAllPages_loop.simps searchAllMail_def
        search_sorted_loop.simps httpGetWithBackoff_def httpGetWithBackoff_loop.simps
        reliable_def oldest_first_def page_items_def returned_def mapMsg_def
        example_message_def example_mail_def js_truthy_def js_sort_def by_received_def
        js_lt_def Let_def)

end
